theory Spec2Isabelle
  imports Complex_Main "HOL-Library.Product_Lexorder"
begin

section \<open>The room generator of rooms.py\<close>

text \<open>
  The module grows a layout of rooms on a \<open>w \<times> h\<close> grid from an epicenter, opens extra
  doors at dead ends, lists the chests and merges fully wired \<open>2 \<times> 2\<close> blocks into big
  rooms. Every function of the module is embedded below under its own name (without the
  leading underscore). Mutation of the shared arrays is explicit state passing, every
  exception of Python or numpy is a value \<open>Inl e\<close>, and the module-wide random generator
  is an explicit argument.
\<close>

subsection \<open>Errors\<close>

datatype error =
    ValueError string
  | IndexError string

definition ebind :: "error + 'a \<Rightarrow> ('a \<Rightarrow> error + 'b) \<Rightarrow> error + 'b" where
  "ebind m f = (case m of Inl e \<Rightarrow> Inl e | Inr x \<Rightarrow> f x)"

text \<open>A list comprehension whose condition may raise: it stops at the first exception.\<close>

fun filter_err :: "('a \<Rightarrow> error + bool) \<Rightarrow> 'a list \<Rightarrow> error + 'a list" where
  "filter_err P [] = Inr []"
| "filter_err P (x # xs) =
     (case P x of
        Inl e \<Rightarrow> Inl e
      | Inr b \<Rightarrow>
          (case filter_err P xs of
             Inl e \<Rightarrow> Inl e
           | Inr ys \<Rightarrow> Inr (if b then x # ys else ys)))"

text \<open>A \<open>for\<close> loop over a list whose body updates a state and may raise.\<close>

fun fold_err :: "('a \<Rightarrow> 's \<Rightarrow> error + 's) \<Rightarrow> 'a list \<Rightarrow> 's \<Rightarrow> error + 's" where
  "fold_err f [] s = Inr s"
| "fold_err f (x # xs) s =
     (case f x s of Inl e \<Rightarrow> Inl e | Inr s' \<Rightarrow> fold_err f xs s')"

subsection \<open>Directions, cell types, points\<close>

datatype dir = LEFT | RIGHT | UP | DOWN

datatype cell = EMPTY | SPAWNER | BODY

type_synonym point = "int \<times> int"

type_synonym pfilter = "point \<Rightarrow> bool"

subsection \<open>numpy arrays of two dimensions\<close>

text \<open>
  An array of shape \<open>(n, m)\<close> is the list of its \<open>n\<close> rows of length \<open>m\<close>; the first index
  selects the row. An index \<open>i\<close> of a dimension of size \<open>n\<close> is valid from \<open>-n\<close> to \<open>n - 1\<close>,
  a negative one counts from the end, and any other raises IndexError.
\<close>

type_synonym 'a ndarray = "'a list list"

definition np_full :: "int \<Rightarrow> int \<Rightarrow> 'a \<Rightarrow> error + 'a ndarray" where
  "np_full n m v =
     (if n < 0 \<or> m < 0 then Inl (ValueError ''negative dimensions are not allowed'')
      else Inr (replicate (nat n) (replicate (nat m) v)))"

definition np_index :: "nat \<Rightarrow> int \<Rightarrow> error + nat" where
  "np_index n i =
     (if 0 \<le> i \<and> i < int n then Inr (nat i)
      else if - int n \<le> i \<and> i < 0 then Inr (nat (i + int n))
      else Inl (IndexError ''index is out of bounds''))"

definition nd_get :: "'a ndarray \<Rightarrow> point \<Rightarrow> error + 'a" where
  "nd_get a p =
     ebind (np_index (length a) (fst p)) (\<lambda>i.
     ebind (np_index (length (a ! i)) (snd p)) (\<lambda>j.
     Inr (a ! i ! j)))"

definition nd_set :: "'a ndarray \<Rightarrow> point \<Rightarrow> 'a \<Rightarrow> error + 'a ndarray" where
  "nd_set a p v =
     ebind (np_index (length a) (fst p)) (\<lambda>i.
     ebind (np_index (length (a ! i)) (snd p)) (\<lambda>j.
     Inr (a[i := (a ! i)[j := v]])))"

subsection \<open>The random generator\<close>

text \<open>
  The state of the generator is the sequence of its future draws and a position in it.
  Each call of \<open>random.choice\<close>, each pick of \<open>random.sample\<close> and each call of
  \<open>random.random\<close> consumes one draw; how the Mersenne Twister produces the draw is
  not modelled, so a statement for every \<open>rng\<close> covers every state of the generator.
\<close>

record rng =
  draws :: "nat \<Rightarrow> nat"
  pos :: nat

definition next_draw :: "rng \<Rightarrow> nat \<times> rng" where
  "next_draw r = (draws r (pos r), r\<lparr>pos := Suc (pos r)\<rparr>)"

definition random_choice :: "'a list \<Rightarrow> rng \<Rightarrow> error + ('a \<times> rng)" where
  "random_choice xs r =
     (if xs = [] then Inl (IndexError ''Cannot choose from an empty sequence'')
      else (case next_draw r of (d, r') \<Rightarrow> Inr (xs ! (d mod length xs), r')))"

text \<open>\<open>random.random()\<close>: a multiple of \<open>2\<^sup>-\<^sup>5\<^sup>3\<close> in \<open>[0, 1)\<close>.\<close>

definition random_random :: "rng \<Rightarrow> real \<times> rng" where
  "random_random r =
     (case next_draw r of (d, r') \<Rightarrow> (real (d mod 2 ^ 53) / 2 ^ 53, r'))"

text \<open>
  \<open>random.sample(population, k)\<close>: \<open>k\<close> picks by position without replacement, in the
  order of the picks.
\<close>

fun sample_picks :: "nat \<Rightarrow> 'a list \<Rightarrow> rng \<Rightarrow> 'a list \<times> rng" where
  "sample_picks 0 pool r = ([], r)"
| "sample_picks (Suc k) pool r =
     (case next_draw r of (d, r') \<Rightarrow>
        (let j = d mod length pool in
         (case sample_picks k (take j pool @ drop (Suc j) pool) r' of
            (rest, r'') \<Rightarrow> (pool ! j # rest, r''))))"

definition random_sample :: "'a list \<Rightarrow> int \<Rightarrow> rng \<Rightarrow> error + ('a list \<times> rng)" where
  "random_sample population k r =
     (if k < 0 \<or> int (length population) < k
      then Inl (ValueError ''Sample larger than population or is negative'')
      else Inr (sample_picks (nat k) population r))"

text \<open>\<open>list.remove(x)\<close>: removes the first occurrence, raises ValueError when there is none.\<close>

definition list_remove :: "'a \<Rightarrow> 'a list \<Rightarrow> error + 'a list" where
  "list_remove x xs =
     (if x \<in> set xs then Inr (remove1 x xs)
      else Inl (ValueError ''list.remove(x): x not in list''))"

subsection \<open>Grid model and neighbor enumeration\<close>

definition PointChecker :: "int \<Rightarrow> int \<Rightarrow> pfilter" where
  "PointChecker w h point =
     (case point of (x, y) \<Rightarrow> (0 \<le> x \<and> x < w) \<and> (0 \<le> y \<and> y < h))"

record arrays =
  cells :: "cell ndarray"
  hor_doors :: "bool ndarray"
  ver_doors :: "bool ndarray"

definition get_nbr_points :: "point \<Rightarrow> pfilter \<Rightarrow> point list" where
  "get_nbr_points point filt =
     (case point of (x, y) \<Rightarrow>
        filter filt [(x - 1, y), (x + 1, y), (x, y - 1), (x, y + 1)])"


definition get_nbr_points_n_dirs :: "point \<Rightarrow> pfilter \<Rightarrow> (point \<times> dir) list" where
  "get_nbr_points_n_dirs point filt =
     (case point of (x, y) \<Rightarrow>
        filter (\<lambda>pair. filt (fst pair))
          [((x - 1, y), LEFT), ((x + 1, y), RIGHT), ((x, y - 1), UP), ((x, y + 1), DOWN)])"

subsection \<open>Door ledger\<close>

definition get_door :: "point \<Rightarrow> dir \<Rightarrow> arrays \<Rightarrow> error + bool" where
  "get_door point d data =
     (case point of (x, y) \<Rightarrow>
        (case d of
           LEFT \<Rightarrow> nd_get (hor_doors data) (x - 1, y)
         | RIGHT \<Rightarrow> nd_get (hor_doors data) (x, y)
         | UP \<Rightarrow> nd_get (ver_doors data) (x, y - 1)
         | DOWN \<Rightarrow> nd_get (ver_doors data) (x, y)))"

definition set_door :: "point \<Rightarrow> dir \<Rightarrow> bool \<Rightarrow> arrays \<Rightarrow> error + arrays" where
  "set_door point d v data =
     (case point of (x, y) \<Rightarrow>
        (case d of
           LEFT \<Rightarrow> ebind (nd_set (hor_doors data) (x - 1, y) v) (\<lambda>a. Inr (data\<lparr>hor_doors := a\<rparr>))
         | RIGHT \<Rightarrow> ebind (nd_set (hor_doors data) (x, y) v) (\<lambda>a. Inr (data\<lparr>hor_doors := a\<rparr>))
         | UP \<Rightarrow> ebind (nd_set (ver_doors data) (x, y - 1) v) (\<lambda>a. Inr (data\<lparr>ver_doors := a\<rparr>))
         | DOWN \<Rightarrow> ebind (nd_set (ver_doors data) (x, y) v) (\<lambda>a. Inr (data\<lparr>ver_doors := a\<rparr>))))"

subsection \<open>Wiring a head\<close>

text \<open>The directions of the neighbors of \<open>point\<close> whose cell has the given type.\<close>

definition nbr_dirs_of :: "cell \<Rightarrow> point \<Rightarrow> arrays \<Rightarrow> pfilter \<Rightarrow> error + dir list" where
  "nbr_dirs_of t point data filt =
     ebind (filter_err (\<lambda>pair. ebind (nd_get (cells data) (fst pair)) (\<lambda>v. Inr (v = t)))
              (get_nbr_points_n_dirs point filt))
       (\<lambda>pairs. Inr (map snd pairs))"

definition wire :: "point \<Rightarrow> arrays \<Rightarrow> pfilter \<Rightarrow> error + arrays" where
  "wire point data filt =
     ebind (nbr_dirs_of SPAWNER point data filt) (\<lambda>dirs.
     fold_err (\<lambda>d. set_door point d True) dirs data)"

subsection \<open>Dead ends\<close>

lemma ebind_cong [fundef_cong]:
  "m = m' \<Longrightarrow> (\<And>x. m' = Inr x \<Longrightarrow> f x = f' x) \<Longrightarrow> ebind m f = ebind m' f'"
  by (cases m') (simp_all add: ebind_def)

text \<open>
  The loop that looks for the first open door among \<open>dirs\<close>: it leaves the function
  (\<open>SecondDoor\<close>) at a second open door, and otherwise ends with \<open>first\<close>, which is
  still \<open>None\<close> when no door is open.
\<close>

datatype scan = SecondDoor | Scanned "dir option"

fun first_door :: "point \<Rightarrow> dir list \<Rightarrow> arrays \<Rightarrow> dir option \<Rightarrow> error + scan" where
  "first_door point [] data first = Inr (Scanned first)"
| "first_door point (d # ds) data first =
     ebind (get_door point d data) (\<lambda>door.
       if door then
         (if first \<noteq> None then Inr SecondDoor
          else first_door point ds data (Some d))
       else first_door point ds data first)"

text \<open>The loop \<open>while (len(dirs) > 0) and (random.random() <= chance)\<close>.\<close>

function extra_doors ::
  "point \<Rightarrow> dir list \<Rightarrow> arrays \<Rightarrow> real \<Rightarrow> rng \<Rightarrow> error + (arrays \<times> rng)" where
  "extra_doors point dirs data chance r =
     (if length dirs > 0 then
        (case random_random r of (u, r1) \<Rightarrow>
           if u \<le> chance then
             ebind (random_choice dirs r1) (\<lambda>picked.
             ebind (set_door point (fst picked) True data) (\<lambda>data1.
             ebind (list_remove (fst picked) dirs) (\<lambda>dirs1.
             extra_doors point dirs1 data1 chance (snd picked))))
           else Inr (data, r1))
      else Inr (data, r))"
  by pat_completeness auto
termination
proof (relation "measure (\<lambda>(point, dirs, data, chance, r). length dirs)")
  show "wf (measure (\<lambda>(point, dirs, data, chance, r). length dirs))"
    by simp
next
  fix point :: point and dirs :: "dir list" and data :: arrays and chance :: real
    and r :: rng and picked :: "dir \<times> rng" and data1 :: arrays and dirs1 :: "dir list"
  assume "list_remove (fst picked) dirs = Inr dirs1"
  then have "fst picked \<in> set dirs" and "dirs1 = remove1 (fst picked) dirs"
    by (auto simp: list_remove_def split: if_splits)
  then have "length dirs1 < length dirs"
    by (simp add: length_remove1) (cases dirs; simp)
  then show "((point, dirs1, data1, chance, snd picked), (point, dirs, data, chance, r))
      \<in> measure (\<lambda>(point, dirs, data, chance, r). length dirs)"
    by simp
qed

declare extra_doors.simps [simp del]

text \<open>
  The result is Python's return value (\<open>Some True\<close>, \<open>Some False\<close>, or \<open>None\<close> where the
  function returns nothing) with the updated arrays and generator.
\<close>

definition process_as_if_dead_end ::
  "point \<Rightarrow> arrays \<Rightarrow> pfilter \<Rightarrow> real \<Rightarrow> rng \<Rightarrow> error + (bool option \<times> arrays \<times> rng)" where
  "process_as_if_dead_end point data filt chance r =
     ebind (nd_get (cells data) point) (\<lambda>v.
     if v = BODY then
       ebind (nbr_dirs_of BODY point data filt) (\<lambda>dirs.
       if length dirs = 1 then Inr (Some True, data, r)
       else
         ebind (first_door point dirs data None) (\<lambda>s.
         case s of
           SecondDoor \<Rightarrow> Inr (None, data, r)
         | Scanned first \<Rightarrow>
             ebind (case first of
                      None \<Rightarrow> Inl (ValueError ''list.remove(x): x not in list'')
                    | Some f \<Rightarrow> list_remove f dirs) (\<lambda>dirs1.
             ebind (random_choice dirs1 r) (\<lambda>picked.
             ebind (set_door point (fst picked) True data) (\<lambda>data1.
             ebind (list_remove (fst picked) dirs1) (\<lambda>dirs2.
             ebind (extra_doors point dirs2 data1 chance (snd picked)) (\<lambda>res.
             Inr (Some False, fst res, snd res))))))))
     else Inr (None, data, r))"

subsection \<open>Big rooms\<close>

definition big_cell_filter :: "point \<Rightarrow> arrays \<Rightarrow> error + bool" where
  "big_cell_filter point data =
     (case point of (x, y) \<Rightarrow>
        ebind (nd_get (hor_doors data) (x, y)) (\<lambda>a.
        if \<not> a then Inr False else
        ebind (nd_get (ver_doors data) (x, y)) (\<lambda>b.
        if \<not> b then Inr False else
        ebind (nd_get (hor_doors data) (x, y + 1)) (\<lambda>c.
        if \<not> c then Inr False else
        nd_get (ver_doors data) (x + 1, y)))))"

definition place_big_cell :: "point \<Rightarrow> arrays \<Rightarrow> error + arrays" where
  "place_big_cell point data =
     (case point of (x, y) \<Rightarrow>
        ebind (nd_set (cells data) (x, y) EMPTY) (\<lambda>c1.
        ebind (nd_set c1 (x + 1, y) EMPTY) (\<lambda>c2.
        ebind (nd_set c2 (x, y + 1) EMPTY) (\<lambda>c3.
        ebind (nd_set c3 (x + 1, y + 1) EMPTY) (\<lambda>c4.
        ebind (nd_set (hor_doors data) (x, y) False) (\<lambda>h1.
        ebind (nd_set h1 (x, y + 1) False) (\<lambda>h2.
        ebind (nd_set (ver_doors data) (x, y) False) (\<lambda>v1.
        ebind (nd_set v1 (x + 1, y) False) (\<lambda>v2.
        Inr (data\<lparr>cells := c4, hor_doors := h2, ver_doors := v2\<rparr>))))))))))"

definition difference :: "int \<Rightarrow> int \<Rightarrow> int" where
  "difference x y = (if x < y then y - x else x - y)"

definition max_point_difference :: "point \<Rightarrow> point \<Rightarrow> int" where
  "max_point_difference a b =
     max (difference (fst a) (fst b)) (difference (snd a) (snd b))"

text \<open>The loop \<open>while len(p_big_cells) > 0\<close> of \<open>_finish\<close>.\<close>

function place_big_cells ::
  "point list \<Rightarrow> bool ndarray \<Rightarrow> arrays \<Rightarrow> rng \<Rightarrow> error + (bool ndarray \<times> arrays \<times> rng)" where
  "place_big_cells p_big_cells big_cells data r =
     (if length p_big_cells > 0 then
        ebind (random_choice p_big_cells r) (\<lambda>picked.
        ebind (place_big_cell (fst picked) data) (\<lambda>data1.
        ebind (nd_set big_cells (fst picked) True) (\<lambda>big1.
        place_big_cells
          (filter (\<lambda>cell. max_point_difference cell (fst picked) > 1) p_big_cells)
          big1 data1 (snd picked))))
      else Inr (big_cells, data, r))"
  by pat_completeness auto
termination
proof (relation "measure (\<lambda>(p_big_cells, big_cells, data, r). length p_big_cells)")
  show "wf (measure (\<lambda>(p_big_cells, big_cells, data, r). length p_big_cells))"
    by simp
next
  fix p_big_cells :: "point list" and big_cells :: "bool ndarray" and data :: arrays
    and r :: rng and picked :: "point \<times> rng" and data1 :: arrays
    and big1 :: "bool ndarray"
  assume "0 < length p_big_cells" and "random_choice p_big_cells r = Inr picked"
  then have "fst picked \<in> set p_big_cells"
    by (auto simp: random_choice_def split: prod.splits)
  moreover have "\<not> max_point_difference (fst picked) (fst picked) > 1"
    by (simp add: max_point_difference_def difference_def)
  ultimately have
    "length (filter (\<lambda>cell. max_point_difference cell (fst picked) > 1) p_big_cells)
       < length p_big_cells"
    by (meson length_filter_less)
  then show
    "((filter (\<lambda>cell. max_point_difference cell (fst picked) > 1) p_big_cells,
        big1, data1, snd picked), (p_big_cells, big_cells, data, r))
      \<in> measure (\<lambda>(p_big_cells, big_cells, data, r). length p_big_cells)"
    by simp
qed

declare place_big_cells.simps [simp del]

subsection \<open>Finishing\<close>

text \<open>\<open>itertools.product(range(n), range(m))\<close>, the first coordinate major.\<close>

definition grid :: "int \<Rightarrow> int \<Rightarrow> point list" where
  "grid n m = List.product [0..n - 1] [0..m - 1]"

type_synonym layout =
  "bool ndarray \<times> bool ndarray \<times> bool ndarray \<times> bool ndarray \<times> point list"

text \<open>
  \<open>np.empty\<close> leaves the contents of the occupied mask unspecified; the loop that
  follows assigns every cell of it, so the model starts from \<open>False\<close>.
\<close>

definition finish ::
  "int \<Rightarrow> int \<Rightarrow> arrays \<Rightarrow> pfilter \<Rightarrow> real \<Rightarrow> rng \<Rightarrow> error + layout" where
  "finish w h data filt chance r =
     ebind (fold_err (\<lambda>cell st.
              case st of (chests, data', r') \<Rightarrow>
                ebind (process_as_if_dead_end cell data' filt chance r') (\<lambda>res.
                case res of (ret, data'', r'') \<Rightarrow>
                  Inr (if ret = Some True then chests @ [cell] else chests, data'', r'')))
              (grid w h) ([], data, r)) (\<lambda>st1.
     case st1 of (chests, data1, r1) \<Rightarrow>
     ebind (np_full (w - 1) (h - 1) False) (\<lambda>big_cells.
     ebind (filter_err (\<lambda>cell. big_cell_filter cell data1) (grid (w - 1) (h - 1)))
       (\<lambda>p_big_cells.
     ebind (place_big_cells p_big_cells big_cells data1 r1) (\<lambda>st2.
     case st2 of (big_cells1, data2, r2) \<Rightarrow>
     ebind (np_full w h False) (\<lambda>occ0.
     ebind (fold_err (\<lambda>cell occ.
              ebind (nd_get (cells data2) cell) (\<lambda>v. nd_set occ cell (v = BODY)))
              (grid w h) occ0) (\<lambda>occ.
     Inr (occ, big_cells1, hor_doors data2, ver_doors data2, chests)))))))"

subsection \<open>Wave growth\<close>

text \<open>
  The vacancies are a Python set. The model keeps the elements in the order of their
  insertion, without duplicates; \<open>sorted(vacancies)\<close> is \<open>sort\<close> (tuples compare
  lexicographically). Where the source iterates over the set itself (\<open>heads = vacancies\<close>),
  the order is that of the hash table: it is the parameter \<open>ord\<close> of \<open>grow\<close>.
\<close>

definition set_update :: "'a list \<Rightarrow> 'a list \<Rightarrow> 'a list" where
  "set_update s xs = fold (\<lambda>x acc. if x \<in> set acc then acc else acc @ [x]) xs s"

definition fill_vacancies :: "arrays \<Rightarrow> pfilter \<Rightarrow> point list \<Rightarrow> error + point list" where
  "fill_vacancies data filt spawners =
     fold_err (\<lambda>spawner vacancies.
        ebind (filter_err (\<lambda>cell. ebind (nd_get (cells data) cell) (\<lambda>v. Inr (v = EMPTY)))
                 (get_nbr_points spawner filt))
          (\<lambda>new. Inr (set_update vacancies new)))
       spawners []"

definition set_cells :: "cell \<Rightarrow> point list \<Rightarrow> arrays \<Rightarrow> error + arrays" where
  "set_cells t ps data =
     ebind (fold_err (\<lambda>p a. nd_set a p t) ps (cells data)) (\<lambda>a. Inr (data\<lparr>cells := a\<rparr>))"

text \<open>
  The loop \<open>while True\<close> of \<open>generate\<close>, cut after \<open>fuel\<close> iterations: each entry into the
  loop body consumes one unit, and the result \<open>None\<close> is the loop still running when the
  fuel is spent; \<open>Some\<close> carries what the source returns or raises. The set \<open>vacancies\<close>
  is empty at every entry (it is created empty and cleared at the end of the body), so it
  is local to the body here.
\<close>

definition obind :: "error + 'a \<Rightarrow> ('a \<Rightarrow> (error + 'b) option) \<Rightarrow> (error + 'b) option" where
  "obind m f = (case m of Inl e \<Rightarrow> Some (Inl e) | Inr x \<Rightarrow> f x)"

fun grow ::
  "(point list \<Rightarrow> point list) \<Rightarrow> nat \<Rightarrow> int \<Rightarrow> int \<Rightarrow> arrays \<Rightarrow> pfilter \<Rightarrow> real \<Rightarrow> int
     \<Rightarrow> point list \<Rightarrow> rng \<Rightarrow> (error + layout) option" where
  "grow ord 0 w h data filt chance c spawners r = None"
| "grow ord (Suc fuel) w h data filt chance c spawners r =
     obind (fill_vacancies data filt spawners) (\<lambda>vacancies.
     if length vacancies = 0 then
       Some (ebind (set_cells BODY spawners data) (\<lambda>data1.
             finish w h data1 filt chance r))
     else
       obind (if int (length vacancies) > c
              then random_sample (sort vacancies) c r
              else Inr (ord vacancies, r)) (\<lambda>picked.
       case picked of (heads, r1) \<Rightarrow>
       obind (fold_err (\<lambda>head d. wire head d filt) heads data) (\<lambda>data1.
       obind (set_cells BODY spawners data1) (\<lambda>data2.
       obind (set_cells SPAWNER heads data2) (\<lambda>data3.
       grow ord fuel w h data3 filt chance c heads r1)))))"

definition generate ::
  "(point list \<Rightarrow> point list) \<Rightarrow> nat \<Rightarrow> int \<Rightarrow> int \<Rightarrow> int \<Rightarrow> int \<Rightarrow> real \<Rightarrow> int \<Rightarrow> rng
     \<Rightarrow> (error + layout) option" where
  "generate ord fuel w h px py chance c r =
     (if w \<le> 0 then Some (Inl (ValueError ''w must be positive''))
      else if h \<le> 0 then Some (Inl (ValueError ''h must be positive''))
      else if \<not> (0 \<le> px \<and> px < w) then Some (Inl (ValueError ''0 <= px < w must be True''))
      else if \<not> (0 \<le> py \<and> py < h) then Some (Inl (ValueError ''0 <= py < h must be True''))
      else if \<not> (0 < chance \<and> chance < 1)
        then Some (Inl (ValueError ''0.0 < chance < 1.0 must be True''))
      else if c < 0 then Some (Inl (ValueError ''c can not be negative''))
      else
        obind (np_full w h EMPTY) (\<lambda>cells0.
        obind (np_full (w - 1) h False) (\<lambda>hor.
        obind (np_full w (h - 1) False) (\<lambda>ver.
        obind (nd_set cells0 (px, py) SPAWNER) (\<lambda>cells1.
        grow ord fuel w h \<lparr>cells = cells1, hor_doors = hor, ver_doors = ver\<rparr>
          (PointChecker w h) chance c [(px, py)] r)))))"

subsection \<open>Generator states for the examples\<close>

definition constant_rng :: "nat \<Rightarrow> rng" where
  "constant_rng d = \<lparr>draws = (\<lambda>i. d), pos = 0\<rparr>"

definition list_rng :: "nat list \<Rightarrow> rng" where
  "list_rng ds = \<lparr>draws = (\<lambda>i. if i < length ds then ds ! i else 0), pos = 0\<rparr>"

subsection \<open>Notions used in the statements\<close>

text \<open>
  \<open>shape a n m\<close>: the array has \<open>n\<close> rows of length \<open>m\<close>. \<open>elt a p\<close> is the entry at an
  index \<open>p\<close> within the shape, where numpy neither wraps nor raises.
\<close>

definition shape :: "'a ndarray \<Rightarrow> int \<Rightarrow> int \<Rightarrow> bool" where
  "shape a n m \<longleftrightarrow> int (length a) = n \<and> (\<forall>row \<in> set a. int (length row) = m)"

definition elt :: "'a ndarray \<Rightarrow> point \<Rightarrow> 'a" where
  "elt a p = a ! nat (fst p) ! nat (snd p)"

text \<open>The neighbor of a point in a direction, as the enumerations of the source pair them.\<close>

fun step :: "point \<Rightarrow> dir \<Rightarrow> point" where
  "step (x, y) LEFT = (x - 1, y)"
| "step (x, y) RIGHT = (x + 1, y)"
| "step (x, y) UP = (x, y - 1)"
| "step (x, y) DOWN = (x, y + 1)"

definition all_dirs :: "dir list" where
  "all_dirs = [LEFT, RIGHT, UP, DOWN]"

text \<open>
  \<open>wf w h data\<close>: the three arrays have the shapes \<open>generate\<close> allocates.
  \<open>open_between data a b\<close>: the cells \<open>a\<close> and \<open>b\<close> are orthogonal neighbors and the slot of
  the door array for the edge between them is true.
\<close>

definition wf :: "int \<Rightarrow> int \<Rightarrow> arrays \<Rightarrow> bool" where
  "wf w h data \<longleftrightarrow>
     shape (cells data) w h \<and> shape (hor_doors data) (w - 1) h
     \<and> shape (ver_doors data) w (h - 1)"

definition open_between :: "arrays \<Rightarrow> point \<Rightarrow> point \<Rightarrow> bool" where
  "open_between data a b =
     (case a of (x, y) \<Rightarrow> case b of (x', y') \<Rightarrow>
        (y' = y \<and> x' = x + 1 \<and> elt (hor_doors data) (x, y))
        \<or> (y' = y \<and> x = x' + 1 \<and> elt (hor_doors data) (x', y))
        \<or> (x' = x \<and> y' = y + 1 \<and> elt (ver_doors data) (x, y))
        \<or> (x' = x \<and> y = y' + 1 \<and> elt (ver_doors data) (x, y')))"

text \<open>
  \<open>links w h data\<close>: the open-door adjacency between the cells of the grid.
  \<open>empties w h data\<close>: the cells of the grid that are still empty.
  \<open>grow_inv w h e data spawners\<close>: what holds of the arrays at every entry into the loop of
  \<open>generate\<close> started at the epicenter \<open>e\<close>: the spawner cells are exactly the points of the
  list \<open>spawners\<close>, an open door has no empty cell at its ends, and every cell that is not
  empty is joined to the epicenter by a path of open doors.
\<close>

definition links :: "int \<Rightarrow> int \<Rightarrow> arrays \<Rightarrow> (point \<times> point) set" where
  "links w h data =
     {(a, b). PointChecker w h a \<and> PointChecker w h b \<and> open_between data a b}"

definition empties :: "int \<Rightarrow> int \<Rightarrow> arrays \<Rightarrow> point set" where
  "empties w h data = {p. PointChecker w h p \<and> elt (cells data) p = EMPTY}"

definition grow_inv :: "int \<Rightarrow> int \<Rightarrow> point \<Rightarrow> arrays \<Rightarrow> point list \<Rightarrow> bool" where
  "grow_inv w h e data spawners \<longleftrightarrow>
     wf w h data \<and> PointChecker w h e \<and> elt (cells data) e \<noteq> EMPTY
     \<and> (\<forall>p \<in> set spawners. PointChecker w h p)
     \<and> (\<forall>p. PointChecker w h p \<longrightarrow> (elt (cells data) p = SPAWNER \<longleftrightarrow> p \<in> set spawners))
     \<and> (\<forall>a b. PointChecker w h a \<and> PointChecker w h b \<and> open_between data a b
           \<longrightarrow> elt (cells data) a \<noteq> EMPTY)
     \<and> (\<forall>p. PointChecker w h p \<and> elt (cells data) p \<noteq> EMPTY
           \<longrightarrow> (e, p) \<in> (links w h data)\<^sup>*)"

text \<open>Shorthands for what the door slots and the cells of the grid hold.\<close>

definition doors_are :: "int \<Rightarrow> int \<Rightarrow> arrays \<Rightarrow> (point \<Rightarrow> point \<Rightarrow> bool) \<Rightarrow> bool" where
  "doors_are w h data R \<longleftrightarrow>
     (\<forall>a b. PointChecker w h a \<and> PointChecker w h b \<longrightarrow> open_between data a b = R a b)"

definition cells_are :: "int \<Rightarrow> int \<Rightarrow> arrays \<Rightarrow> (point \<Rightarrow> cell) \<Rightarrow> bool" where
  "cells_are w h data f \<longleftrightarrow> (\<forall>q. PointChecker w h q \<longrightarrow> elt (cells data) q = f q)"

text \<open>
  \<open>body_dirs w h D p\<close>: the directions from \<open>p\<close> to its neighbors in the grid that are body
  cells, in the order of the enumeration (the list \<open>dirs\<close> of \<open>_process_as_if_dead_end\<close>).
  \<open>dead_end_inv w h D data\<close>: what the dead-end pass started on \<open>D\<close> keeps true of the
  arrays: the cells are those of \<open>D\<close>, no door of \<open>D\<close> is closed, and every open door has
  body cells at its ends.
\<close>

definition body_dirs :: "int \<Rightarrow> int \<Rightarrow> arrays \<Rightarrow> point \<Rightarrow> dir list" where
  "body_dirs w h D p =
     filter (\<lambda>d. PointChecker w h (step p d) \<and> elt (cells D) (step p d) = BODY) all_dirs"

definition dead_end_inv :: "int \<Rightarrow> int \<Rightarrow> arrays \<Rightarrow> arrays \<Rightarrow> bool" where
  "dead_end_inv w h D data \<longleftrightarrow>
     wf w h data \<and> cells data = cells D
     \<and> (\<forall>a b. PointChecker w h a \<and> PointChecker w h b \<and> open_between D a b
           \<longrightarrow> open_between data a b)
     \<and> (\<forall>a b. PointChecker w h a \<and> PointChecker w h b \<and> open_between data a b
           \<longrightarrow> elt (cells D) a = BODY)"

text \<open>
  \<open>block c\<close>: the four cells of the \<open>2 \<times> 2\<close> block whose corner of least coordinates is \<open>c\<close>.
  \<open>inner c a b\<close>: \<open>a\<close> and \<open>b\<close> are neighbors within the block of \<open>c\<close>, the ends of one of its
  four inner doors. \<open>block_wired data c\<close>: these four doors are open.
  \<open>chosen w h big\<close>: the corners marked in a big-cell mask. \<open>covered S q\<close>: the cell \<open>q\<close>
  lies in the block of a corner of \<open>S\<close>.
  \<open>merge_inv w h D big data\<close>: what the loop that places the big cells, started on the
  arrays \<open>D\<close>, keeps true: the covered cells are emptied, the doors between two cells of
  one chosen block are closed, nothing else has changed, and two chosen corners differ
  by more than one in some coordinate.
\<close>

definition block :: "point \<Rightarrow> point set" where
  "block c = (case c of (x, y) \<Rightarrow> {(x, y), (x + 1, y), (x, y + 1), (x + 1, y + 1)})"

definition inner :: "point \<Rightarrow> point \<Rightarrow> point \<Rightarrow> bool" where
  "inner c a b =
     (case c of (x, y) \<Rightarrow>
        (a = (x, y) \<and> b = (x + 1, y)) \<or> (a = (x + 1, y) \<and> b = (x, y))
        \<or> (a = (x, y + 1) \<and> b = (x + 1, y + 1)) \<or> (a = (x + 1, y + 1) \<and> b = (x, y + 1))
        \<or> (a = (x, y) \<and> b = (x, y + 1)) \<or> (a = (x, y + 1) \<and> b = (x, y))
        \<or> (a = (x + 1, y) \<and> b = (x + 1, y + 1)) \<or> (a = (x + 1, y + 1) \<and> b = (x + 1, y)))"

definition block_wired :: "arrays \<Rightarrow> point \<Rightarrow> bool" where
  "block_wired data c =
     (case c of (x, y) \<Rightarrow>
        open_between data (x, y) (x + 1, y) \<and> open_between data (x, y) (x, y + 1)
        \<and> open_between data (x, y + 1) (x + 1, y + 1)
        \<and> open_between data (x + 1, y) (x + 1, y + 1))"

definition chosen :: "int \<Rightarrow> int \<Rightarrow> bool ndarray \<Rightarrow> point set" where
  "chosen w h big = {c. PointChecker (w - 1) (h - 1) c \<and> elt big c}"

definition covered :: "point set \<Rightarrow> point \<Rightarrow> bool" where
  "covered S q \<longleftrightarrow> (\<exists>c \<in> S. q \<in> block c)"

definition merge_inv :: "int \<Rightarrow> int \<Rightarrow> arrays \<Rightarrow> bool ndarray \<Rightarrow> arrays \<Rightarrow> bool" where
  "merge_inv w h D big data \<longleftrightarrow>
     wf w h data \<and> shape big (w - 1) (h - 1)
     \<and> cells_are w h data
          (\<lambda>q. if covered (chosen w h big) q then EMPTY else elt (cells D) q)
     \<and> doors_are w h data
          (\<lambda>a b. open_between D a b \<and> \<not> (\<exists>c \<in> chosen w h big. inner c a b))
     \<and> (\<forall>a \<in> chosen w h big. \<forall>b \<in> chosen w h big.
           a \<noteq> b \<longrightarrow> 1 < max_point_difference a b)"

text \<open>
  \<open>mask_of w h occ data\<close>: \<open>occ\<close> is the occupied mask of the cells of \<open>data\<close>.
  \<open>leaves w h D chests\<close>: every listed point is a body cell of \<open>D\<close> with exactly one body
  neighbor.
\<close>

definition mask_of :: "int \<Rightarrow> int \<Rightarrow> bool ndarray \<Rightarrow> arrays \<Rightarrow> bool" where
  "mask_of w h occ data \<longleftrightarrow>
     shape occ w h \<and> (\<forall>q. PointChecker w h q \<longrightarrow> elt occ q = (elt (cells data) q = BODY))"

definition leaves :: "int \<Rightarrow> int \<Rightarrow> arrays \<Rightarrow> point list \<Rightarrow> bool" where
  "leaves w h D chests \<longleftrightarrow>
     (\<forall>ch \<in> set chests. PointChecker w h ch \<and> elt (cells D) ch = BODY
        \<and> length (body_dirs w h D ch) = 1)"

subsection \<open>Reading the returned layout\<close>

text \<open>
  The notions of the claims, on the arrays \<open>generate\<close> returns, read with numpy indexing.
  \<open>occupied occ p\<close>: the occupied mask is true at \<open>p\<close>.
  \<open>in_big_cell w h big p\<close>: \<open>p\<close> is one of the four cells of a block marked in the big-cell
  mask (of shape \<open>(w - 1, h - 1)\<close>).
  \<open>room w h occ big p\<close>: \<open>p\<close> is occupied or part of a big cell.
  \<open>door_open hor ver a b\<close>: \<open>a\<close> and \<open>b\<close> are orthogonal neighbors and the door between them
  is open.
  \<open>same_big_cell w h big a b\<close>: \<open>a\<close> and \<open>b\<close> are cells of one marked block.
  \<open>connected_by node edge w h\<close>: any two cells of the grid that satisfy \<open>node\<close> are joined by
  a path of \<open>edge\<close> steps through such cells.
\<close>

definition occupied :: "bool ndarray \<Rightarrow> point \<Rightarrow> bool" where
  "occupied occ p \<longleftrightarrow> nd_get occ p = Inr True"

definition corners_of :: "point \<Rightarrow> point list" where
  "corners_of p = (case p of (x, y) \<Rightarrow> [(x, y), (x - 1, y), (x, y - 1), (x - 1, y - 1)])"

definition in_big_cell :: "int \<Rightarrow> int \<Rightarrow> bool ndarray \<Rightarrow> point \<Rightarrow> bool" where
  "in_big_cell w h big p \<longleftrightarrow>
     list_ex (\<lambda>c. PointChecker (w - 1) (h - 1) c \<and> nd_get big c = Inr True) (corners_of p)"

definition room :: "int \<Rightarrow> int \<Rightarrow> bool ndarray \<Rightarrow> bool ndarray \<Rightarrow> point \<Rightarrow> bool" where
  "room w h occ big p \<longleftrightarrow> occupied occ p \<or> in_big_cell w h big p"

definition door_open :: "bool ndarray \<Rightarrow> bool ndarray \<Rightarrow> point \<Rightarrow> point \<Rightarrow> bool" where
  "door_open hor ver a b =
     (case a of (x, y) \<Rightarrow> case b of (x', y') \<Rightarrow>
        (y' = y \<and> x' = x + 1 \<and> nd_get hor (x, y) = Inr True)
        \<or> (y' = y \<and> x = x' + 1 \<and> nd_get hor (x', y) = Inr True)
        \<or> (x' = x \<and> y' = y + 1 \<and> nd_get ver (x, y) = Inr True)
        \<or> (x' = x \<and> y = y' + 1 \<and> nd_get ver (x, y') = Inr True))"

definition same_big_cell :: "int \<Rightarrow> int \<Rightarrow> bool ndarray \<Rightarrow> point \<Rightarrow> point \<Rightarrow> bool" where
  "same_big_cell w h big a b \<longleftrightarrow>
     list_ex (\<lambda>c. PointChecker (w - 1) (h - 1) c \<and> nd_get big c = Inr True
                \<and> b \<in> set (corners_of (fst c + 1, snd c + 1)))
       (corners_of a)"

definition connected_by ::
  "(point \<Rightarrow> bool) \<Rightarrow> (point \<Rightarrow> point \<Rightarrow> bool) \<Rightarrow> int \<Rightarrow> int \<Rightarrow> bool" where
  "connected_by node edge w h \<longleftrightarrow>
     (\<forall>p q. PointChecker w h p \<and> PointChecker w h q \<and> node p \<and> node q \<longrightarrow>
        (p, q) \<in> {(a, b). PointChecker w h a \<and> PointChecker w h b \<and> node a \<and> node b
                      \<and> edge a b}\<^sup>*)"


section \<open>Basic facts\<close>

lemma ebind_Inr_iff: "ebind m f = Inr y \<longleftrightarrow> (\<exists>x. m = Inr x \<and> f x = Inr y)"
  by (cases m) (simp_all add: ebind_def)

lemma ebind_Inr [simp]: "ebind (Inr x) f = f x"
  by (simp add: ebind_def)

lemma ebind_Inl [simp]: "ebind (Inl e) f = Inl e"
  by (simp add: ebind_def)

lemma obind_Inr [simp]: "obind (Inr x) f = f x"
  by (simp add: obind_def)

lemma obind_Inl [simp]: "obind (Inl e) f = Some (Inl e)"
  by (simp add: obind_def)

lemma obind_Some_Inr_iff:
  "obind m f = Some (Inr y) \<longleftrightarrow> (\<exists>x. m = Inr x \<and> f x = Some (Inr y))"
  by (cases m) (simp_all add: obind_def)

lemma obind_None_iff: "obind m f = None \<longleftrightarrow> (\<exists>x. m = Inr x \<and> f x = None)"
  by (cases m) (simp_all add: obind_def)

lemma PointChecker_iff [simp]:
  "PointChecker w h (x, y) \<longleftrightarrow> 0 \<le> x \<and> x < w \<and> 0 \<le> y \<and> y < h"
  by (auto simp: PointChecker_def)

lemma nd_get_in:
  assumes "shape a n m" and "PointChecker n m p"
  shows "nd_get a p = Inr (elt a p)"
proof -
  obtain x y where p: "p = (x, y)" by (cases p)
  from assms p have x: "0 \<le> x" "x < int (length a)" and y: "0 \<le> y" "y < m"
    by (auto simp: shape_def)
  from x have "a ! nat x \<in> set a" by simp
  with assms have "int (length (a ! nat x)) = m" by (auto simp: shape_def)
  with x y show ?thesis
    by (simp add: nd_get_def np_index_def elt_def p)
qed

lemma nd_set_in:
  assumes "shape a n m" and "PointChecker n m p"
  shows "\<exists>a'. nd_set a p v = Inr a' \<and> shape a' n m \<and>
           (\<forall>q. PointChecker n m q \<longrightarrow> elt a' q = (if q = p then v else elt a q))"
proof -
  obtain x y where p: "p = (x, y)" by (cases p)
  from assms p have x: "0 \<le> x" "x < int (length a)" and y: "0 \<le> y" "y < m"
    and n: "int (length a) = n"
    by (auto simp: shape_def)
  from x have "a ! nat x \<in> set a" by simp
  with assms have len: "int (length (a ! nat x)) = m" by (auto simp: shape_def)
  let ?a' = "a[nat x := (a ! nat x)[nat y := v]]"
  have set: "nd_set a p v = Inr ?a'"
    using x y len by (simp add: nd_set_def np_index_def p)
  have sh: "shape ?a' n m"
    using assms len by (auto simp: shape_def dest!: set_update_subset_insert [THEN subsetD])
  have "elt ?a' q = (if q = p then v else elt a q)" if "PointChecker n m q" for q
  proof -
    obtain x' y' where q: "q = (x', y')" by (cases q)
    from that q n have x': "0 \<le> x'" "x' < int (length a)" and y': "0 \<le> y'" "y' < m"
      by auto
    from x' have "a ! nat x' \<in> set a" by simp
    with assms have len': "int (length (a ! nat x')) = m" by (auto simp: shape_def)
    show ?thesis
      using x y x' y' len len'
      by (auto simp: elt_def p q nth_list_update)
  qed
  with set sh show ?thesis by blast
qed

lemma np_full_ok:
  assumes "0 \<le> n" and "0 \<le> m"
  shows "\<exists>a. np_full n m v = Inr a \<and> shape a n m \<and> (\<forall>q. PointChecker n m q \<longrightarrow> elt a q = v)"
  using assms by (auto simp: np_full_def shape_def elt_def PointChecker_def)

lemma set_grid [simp]: "set (grid n m) = {p. PointChecker n m p}"
  by (auto simp: grid_def)

lemmas gen_unfold = generate_def np_full_def nd_set_def np_index_def fill_vacancies_def
  get_nbr_points_def PointChecker_def set_cells_def finish_def grid_def
  process_as_if_dead_end_def nd_get_def nbr_dirs_of_def get_nbr_points_n_dirs_def
  set_update_def random_sample_def wire_def upto_rec1 numeral_2_eq_2

section \<open>Neighbors and doors\<close>

lemma filter_err_total:
  "(\<And>x. x \<in> set xs \<Longrightarrow> P x = Inr (Q x)) \<Longrightarrow> filter_err P xs = Inr (filter Q xs)"
  by (induction xs) simp_all

lemma get_nbr_points_n_dirs_step:
  "get_nbr_points_n_dirs p filt =
     filter (\<lambda>pair. filt (fst pair)) (map (\<lambda>d. (step p d, d)) all_dirs)"
  by (cases p) (simp add: get_nbr_points_n_dirs_def all_dirs_def)

lemma get_nbr_points_step:
  "get_nbr_points p filt = filter filt (map (step p) all_dirs)"
  by (cases p) (simp add: get_nbr_points_def all_dirs_def)


lemma set_all_dirs [simp]: "set all_dirs = UNIV"
  using dir.exhaust by (auto simp: all_dirs_def)

lemma distinct_all_dirs [simp]: "distinct all_dirs"
  by (simp add: all_dirs_def)

lemma set_get_nbr_points: "set (get_nbr_points p filt) = {q. filt q \<and> (\<exists>d. q = step p d)}"
  unfolding get_nbr_points_step by auto

lemma step_back: "\<exists>d'. step (step p d) d' = p"
proof (cases p)
  case (Pair x y)
  show ?thesis
  proof (cases d)
    case LEFT
    have "step (step (x, y) LEFT) RIGHT = (x, y)" by simp
    with Pair LEFT show ?thesis by blast
  next
    case RIGHT
    have "step (step (x, y) RIGHT) LEFT = (x, y)" by simp
    with Pair RIGHT show ?thesis by blast
  next
    case UP
    have "step (step (x, y) UP) DOWN = (x, y)" by simp
    with Pair UP show ?thesis by blast
  next
    case DOWN
    have "step (step (x, y) DOWN) UP = (x, y)" by simp
    with Pair DOWN show ?thesis by blast
  qed
qed

lemma step_neq: "step p d \<noteq> p"
  by (cases p; cases d) simp_all

lemma open_between_sym: "open_between data a b = open_between data b a"
  by (cases a; cases b) (auto simp: open_between_def)

lemma open_between_step: "open_between data a b \<Longrightarrow> \<exists>d. b = step a d"
proof (cases a, cases b)
  fix x y x' y'
  assume ab: "a = (x, y)" "b = (x', y')" and o: "open_between data a b"
  from o ab consider "b = step a RIGHT" | "b = step a LEFT" | "b = step a DOWN" | "b = step a UP"
    by (auto simp: open_between_def)
  then show ?thesis by cases blast+
qed

lemma nbr_dirs_of_in:
  assumes "wf w h data"
  shows "nbr_dirs_of t p data (PointChecker w h) =
     Inr (filter (\<lambda>d. PointChecker w h (step p d) \<and> elt (cells data) (step p d) = t)
            all_dirs)"
proof -
  let ?nb = "get_nbr_points_n_dirs p (PointChecker w h)"
  have "filter_err (\<lambda>pair. ebind (nd_get (cells data) (fst pair)) (\<lambda>v. Inr (v = t))) ?nb
      = Inr (filter (\<lambda>pair. elt (cells data) (fst pair) = t) ?nb)"
  proof (rule filter_err_total)
    fix pair assume "pair \<in> set ?nb"
    then have "PointChecker w h (fst pair)"
      by (auto simp: get_nbr_points_n_dirs_step)
    with assms have "nd_get (cells data) (fst pair) = Inr (elt (cells data) (fst pair))"
      by (auto simp: wf_def intro: nd_get_in)
    then show "ebind (nd_get (cells data) (fst pair)) (\<lambda>v. Inr (v = t))
        = Inr (elt (cells data) (fst pair) = t)"
      by simp
  qed
  then show ?thesis
    by (simp add: nbr_dirs_of_def get_nbr_points_n_dirs_step filter_map comp_def)
qed

lemma get_door_in:
  assumes "wf w h data" and "PointChecker w h p" and "PointChecker w h (step p d)"
  shows "get_door p d data = Inr (open_between data p (step p d))"
proof (cases p)
  case (Pair x y)
  from assms have hs: "shape (hor_doors data) (w - 1) h" and vs: "shape (ver_doors data) w (h - 1)"
    by (simp_all add: wf_def)
  show ?thesis
  proof (cases d)
    case LEFT
    with assms Pair have "PointChecker (w - 1) h (x - 1, y)" by simp
    from nd_get_in [OF hs this] show ?thesis
      by (simp add: get_door_def Pair LEFT open_between_def)
  next
    case RIGHT
    with assms Pair have "PointChecker (w - 1) h (x, y)" by simp
    from nd_get_in [OF hs this] show ?thesis
      by (simp add: get_door_def Pair RIGHT open_between_def)
  next
    case UP
    with assms Pair have "PointChecker w (h - 1) (x, y - 1)" by simp
    from nd_get_in [OF vs this] show ?thesis
      by (simp add: get_door_def Pair UP open_between_def)
  next
    case DOWN
    with assms Pair have "PointChecker w (h - 1) (x, y)" by simp
    from nd_get_in [OF vs this] show ?thesis
      by (simp add: get_door_def Pair DOWN open_between_def)
  qed
qed

lemma open_between_hor_upd:
  assumes upd: "\<And>q. PointChecker (w - 1) h q \<Longrightarrow>
             elt a' q = (if q = (sx, sy) then v else elt (hor_doors data) q)"
    and a: "PointChecker w h a" and b: "PointChecker w h b"
  shows "open_between (data\<lparr>hor_doors := a'\<rparr>) a b =
     (if (a = (sx, sy) \<and> b = (sx + 1, sy)) \<or> (a = (sx + 1, sy) \<and> b = (sx, sy)) then v
      else open_between data a b)"
proof -
  obtain ax ay where A: "a = (ax, ay)" by (cases a)
  obtain bx "by" where B: "b = (bx, by)" by (cases b)
  consider (r) "by = ay" "bx = ax + 1" | (l) "by = ay" "ax = bx + 1"
    | (other) "\<not> (by = ay \<and> bx = ax + 1)" "\<not> (by = ay \<and> ax = bx + 1)"
    by blast
  then show ?thesis
  proof cases
    case r
    with a b A B have "PointChecker (w - 1) h (ax, ay)" by simp
    from upd [OF this] r show ?thesis
      by (simp add: open_between_def A B; arith)
  next
    case l
    with a b A B have "PointChecker (w - 1) h (bx, ay)" by simp
    from upd [OF this] l show ?thesis
      by (simp add: open_between_def A B; arith)
  next
    case other
    then show ?thesis
      by (simp add: open_between_def A B) blast
  qed
qed

lemma open_between_ver_upd:
  assumes upd: "\<And>q. PointChecker w (h - 1) q \<Longrightarrow>
             elt a' q = (if q = (sx, sy) then v else elt (ver_doors data) q)"
    and a: "PointChecker w h a" and b: "PointChecker w h b"
  shows "open_between (data\<lparr>ver_doors := a'\<rparr>) a b =
     (if (a = (sx, sy) \<and> b = (sx, sy + 1)) \<or> (a = (sx, sy + 1) \<and> b = (sx, sy)) then v
      else open_between data a b)"
proof -
  obtain ax ay where A: "a = (ax, ay)" by (cases a)
  obtain bx "by" where B: "b = (bx, by)" by (cases b)
  consider (d) "bx = ax" "by = ay + 1" | (u) "bx = ax" "ay = by + 1"
    | (other) "\<not> (bx = ax \<and> by = ay + 1)" "\<not> (bx = ax \<and> ay = by + 1)"
    by blast
  then show ?thesis
  proof cases
    case d
    with a b A B have "PointChecker w (h - 1) (ax, ay)" by simp
    from upd [OF this] d show ?thesis
      by (simp add: open_between_def A B; arith)
  next
    case u
    with a b A B have "PointChecker w (h - 1) (ax, by)" by simp
    from upd [OF this] u show ?thesis
      by (simp add: open_between_def A B; arith)
  next
    case other
    then show ?thesis
      by (simp add: open_between_def A B) blast
  qed
qed

lemma set_door_in:
  assumes "wf w h data" and "PointChecker w h p" and "PointChecker w h (step p d)"
  shows "\<exists>data'. set_door p d v data = Inr data' \<and> wf w h data' \<and> cells data' = cells data
     \<and> (\<forall>a b. PointChecker w h a \<and> PointChecker w h b \<longrightarrow>
           open_between data' a b =
             (if (a = p \<and> b = step p d) \<or> (a = step p d \<and> b = p) then v
              else open_between data a b))"
proof (cases p)
  case (Pair x y)
  from assms have hs: "shape (hor_doors data) (w - 1) h" and vs: "shape (ver_doors data) w (h - 1)"
    and cs: "shape (cells data) w h"
    by (simp_all add: wf_def)
  have hor: ?thesis
    if slot: "PointChecker (w - 1) h (sx, sy)"
      and sd: "\<And>a. set_door p d v data = ebind (nd_set (hor_doors data) (sx, sy) v) (\<lambda>a. Inr (data\<lparr>hor_doors := a\<rparr>))"
      and ends: "(p = (sx, sy) \<and> step p d = (sx + 1, sy)) \<or> (p = (sx + 1, sy) \<and> step p d = (sx, sy))"
    for sx sy
  proof -
    from nd_set_in [OF hs slot, of v] obtain a' where
      a': "nd_set (hor_doors data) (sx, sy) v = Inr a'" "shape a' (w - 1) h"
        "\<And>q. PointChecker (w - 1) h q \<Longrightarrow>
           elt a' q = (if q = (sx, sy) then v else elt (hor_doors data) q)"
      by blast
    let ?d = "data\<lparr>hor_doors := a'\<rparr>"
    have 1: "set_door p d v data = Inr ?d"
      using a'(1) sd by simp
    have 2: "wf w h ?d" "cells ?d = cells data" using a'(2) vs cs by (simp_all add: wf_def)
    have 3: "open_between ?d a b =
             (if (a = p \<and> b = step p d) \<or> (a = step p d \<and> b = p) then v
              else open_between data a b)"
      if "PointChecker w h a" "PointChecker w h b" for a b
      using open_between_hor_upd [of w h a' sx sy v data a b, OF a'(3) that] ends
      by auto
    from 1 2 3 show ?thesis by blast
  qed
  have ver: ?thesis
    if slot: "PointChecker w (h - 1) (sx, sy)"
      and sd: "\<And>a. set_door p d v data = ebind (nd_set (ver_doors data) (sx, sy) v) (\<lambda>a. Inr (data\<lparr>ver_doors := a\<rparr>))"
      and ends: "(p = (sx, sy) \<and> step p d = (sx, sy + 1)) \<or> (p = (sx, sy + 1) \<and> step p d = (sx, sy))"
    for sx sy
  proof -
    from nd_set_in [OF vs slot, of v] obtain a' where
      a': "nd_set (ver_doors data) (sx, sy) v = Inr a'" "shape a' w (h - 1)"
        "\<And>q. PointChecker w (h - 1) q \<Longrightarrow>
           elt a' q = (if q = (sx, sy) then v else elt (ver_doors data) q)"
      by blast
    let ?d = "data\<lparr>ver_doors := a'\<rparr>"
    have 1: "set_door p d v data = Inr ?d"
      using a'(1) sd by simp
    have 2: "wf w h ?d" "cells ?d = cells data" using a'(2) hs cs by (simp_all add: wf_def)
    have 3: "open_between ?d a b =
             (if (a = p \<and> b = step p d) \<or> (a = step p d \<and> b = p) then v
              else open_between data a b)"
      if "PointChecker w h a" "PointChecker w h b" for a b
      using open_between_ver_upd [of w h a' sx sy v data a b, OF a'(3) that] ends
      by auto
    from 1 2 3 show ?thesis by blast
  qed
  show ?thesis
  proof (cases d)
    case LEFT
    show ?thesis
      using assms Pair LEFT by (intro hor [of "x - 1" y]) (simp_all add: set_door_def)
  next
    case RIGHT
    show ?thesis
      using assms Pair RIGHT by (intro hor [of x y]) (simp_all add: set_door_def)
  next
    case UP
    show ?thesis
      using assms Pair UP by (intro ver [of x "y - 1"]) (simp_all add: set_door_def)
  next
    case DOWN
    show ?thesis
      using assms Pair DOWN by (intro ver [of x y]) (simp_all add: set_door_def)
  qed
qed

section \<open>Loops over lists\<close>

lemma fold_err_prefix:
  assumes "I [] s0"
    and "\<And>x s pre. x \<in> set xs \<Longrightarrow> I pre s \<Longrightarrow> \<exists>s'. f x s = Inr s' \<and> I (pre @ [x]) s'"
  shows "\<exists>s'. fold_err f xs s0 = Inr s' \<and> I xs s'"
  using assms
proof (induction xs arbitrary: s0 I)
  case Nil
  then show ?case by simp
next
  case (Cons x xs)
  from Cons.prems(2) [of x "[]" s0] Cons.prems(1)
  obtain s1 where s1: "f x s0 = Inr s1" "I [x] s1" by auto
  have "\<exists>s'. fold_err f xs s1 = Inr s' \<and> (\<lambda>pre. I (x # pre)) xs s'"
  proof (rule Cons.IH)
    show "I [x] s1" by (rule s1)
  next
    fix y s pre assume "y \<in> set xs" "I (x # pre) s"
    with Cons.prems(2) [of y "x # pre" s] show "\<exists>s'. f y s = Inr s' \<and> I (x # pre @ [y]) s'"
      by simp
  qed
  with s1 show ?case by simp
qed

lemma open_between_doors_only:
  "hor_doors d1 = hor_doors d2 \<Longrightarrow> ver_doors d1 = ver_doors d2
   \<Longrightarrow> open_between d1 a b = open_between d2 a b"
  by (simp add: open_between_def)

lemma set_cells_in:
  assumes "wf w h data" and "\<forall>p \<in> set ps. PointChecker w h p"
  shows "\<exists>data'. set_cells t ps data = Inr data' \<and> wf w h data'
     \<and> hor_doors data' = hor_doors data \<and> ver_doors data' = ver_doors data
     \<and> (\<forall>q. PointChecker w h q \<longrightarrow>
           elt (cells data') q = (if q \<in> set ps then t else elt (cells data) q))"
proof -
  let ?I = "\<lambda>pre a. shape a w h \<and> (\<forall>q. PointChecker w h q \<longrightarrow>
           elt a q = (if q \<in> set pre then t else elt (cells data) q))"
  have "\<exists>a. fold_err (\<lambda>p a. nd_set a p t) ps (cells data) = Inr a \<and> ?I ps a"
  proof (rule fold_err_prefix)
    show "?I [] (cells data)" using assms by (simp add: wf_def)
  next
    fix p a pre assume p: "p \<in> set ps" and I: "?I pre a"
    with assms have pin: "PointChecker w h p" by blast
    from I have "shape a w h" by blast
    from nd_set_in [OF this pin, of t] obtain a' where
      "nd_set a p t = Inr a'" "shape a' w h"
      "\<forall>q. PointChecker w h q \<longrightarrow> elt a' q = (if q = p then t else elt a q)"
      by blast
    with I show "\<exists>a'. nd_set a p t = Inr a' \<and> ?I (pre @ [p]) a'"
      by auto
  qed
  then obtain a where a: "fold_err (\<lambda>p a. nd_set a p t) ps (cells data) = Inr a" "?I ps a"
    by blast
  with assms show ?thesis
    by (simp add: set_cells_def wf_def)
qed


lemma wire_in:
  assumes "wf w h data" and "PointChecker w h p"
  shows "\<exists>data'. wire p data (PointChecker w h) = Inr data' \<and> wf w h data'
     \<and> cells data' = cells data
     \<and> (\<forall>a b. PointChecker w h a \<and> PointChecker w h b \<longrightarrow>
           open_between data' a b =
             (open_between data a b
              \<or> (a = p \<and> (\<exists>d. b = step p d) \<and> elt (cells data) b = SPAWNER)
              \<or> (b = p \<and> (\<exists>d. a = step p d) \<and> elt (cells data) a = SPAWNER)))"
proof -
  define dirs where
    "dirs = filter (\<lambda>d. PointChecker w h (step p d) \<and> elt (cells data) (step p d) = SPAWNER)
                 all_dirs"
  define E where "E a b d \<longleftrightarrow> (a = p \<and> b = step p d) \<or> (a = step p d \<and> b = p)" for a b d
  define I where "I pre data' \<longleftrightarrow> wf w h data' \<and> cells data' = cells data
     \<and> (\<forall>a b. PointChecker w h a \<and> PointChecker w h b \<longrightarrow>
           open_between data' a b = (open_between data a b \<or> (\<exists>d \<in> set pre. E a b d)))"
    for pre data'
  have "\<exists>data'. fold_err (\<lambda>d. set_door p d True) dirs data = Inr data' \<and> I dirs data'"
  proof (rule fold_err_prefix)
    show "I [] data" using assms(1) unfolding I_def by simp
  next
    fix d s pre assume d: "d \<in> set dirs" and Is: "I pre s"
    from Is have wfs: "wf w h s" and cs: "cells s = cells data"
      and os: "\<And>a b. PointChecker w h a \<Longrightarrow> PointChecker w h b \<Longrightarrow>
           open_between s a b = (open_between data a b \<or> (\<exists>d \<in> set pre. E a b d))"
      unfolding I_def by blast+
    from d have dstep: "PointChecker w h (step p d)" unfolding dirs_def by simp
    from set_door_in [OF wfs assms(2) dstep, of True] obtain s' where
      s': "set_door p d True s = Inr s'" "wf w h s'" "cells s' = cells s"
      and os': "\<And>a b. PointChecker w h a \<Longrightarrow> PointChecker w h b \<Longrightarrow>
           open_between s' a b =
             (if (a = p \<and> b = step p d) \<or> (a = step p d \<and> b = p) then True
              else open_between s a b)"
      by blast
    have "open_between s' a b = (open_between data a b \<or> (\<exists>d' \<in> set (pre @ [d]). E a b d'))"
      if ab: "PointChecker w h a" "PointChecker w h b" for a b
    proof -
      have "open_between s' a b = (E a b d \<or> open_between s a b)"
        unfolding os' [OF ab] E_def by (cases "(a = p \<and> b = step p d) \<or> (a = step p d \<and> b = p)") (simp_all, blast)
      also have "\<dots> = (E a b d \<or> open_between data a b \<or> (\<exists>d' \<in> set pre. E a b d'))"
        unfolding os [OF ab] ..
      also have "\<dots> = (open_between data a b \<or> (\<exists>d' \<in> set (pre @ [d]). E a b d'))"
        by auto
      finally show ?thesis .
    qed
    then have "I (pre @ [d]) s'"
      unfolding I_def using s'(2,3) cs by presburger
    with s'(1) show "\<exists>s'. set_door p d True s = Inr s' \<and> I (pre @ [d]) s'"
      by blast
  qed
  then obtain data' where
    d': "fold_err (\<lambda>d. set_door p d True) dirs data = Inr data'" and Id: "I dirs data'"
    by blast
  have w: "wire p data (PointChecker w h) = Inr data'"
    using d' nbr_dirs_of_in [OF assms(1), of SPAWNER p] unfolding dirs_def
    by (simp add: wire_def)
  from Id have wfd: "wf w h data'" and cd: "cells data' = cells data"
      and od: "\<And>a b. PointChecker w h a \<Longrightarrow> PointChecker w h b \<Longrightarrow>
           open_between data' a b = (open_between data a b \<or> (\<exists>d \<in> set dirs. E a b d))"
    unfolding I_def by blast+
  have "open_between data' a b =
             (open_between data a b
              \<or> (a = p \<and> (\<exists>d. b = step p d) \<and> elt (cells data) b = SPAWNER)
              \<or> (b = p \<and> (\<exists>d. a = step p d) \<and> elt (cells data) a = SPAWNER))"
    if ab: "PointChecker w h a" "PointChecker w h b" for a b
  proof -
    have "(\<exists>d \<in> set dirs. E a b d) \<longleftrightarrow>
        (a = p \<and> (\<exists>d. b = step p d) \<and> elt (cells data) b = SPAWNER)
         \<or> (b = p \<and> (\<exists>d. a = step p d) \<and> elt (cells data) a = SPAWNER)"
      unfolding E_def dirs_def set_filter set_all_dirs using ab by blast
    with od [OF ab] show ?thesis by simp
  qed
  with w wfd cd show ?thesis by blast
qed

lemma set_set_update [simp]: "set (set_update s xs) = set s \<union> set xs"
  unfolding set_update_def by (induction xs arbitrary: s) auto

lemma distinct_set_update: "distinct s \<Longrightarrow> distinct (set_update s xs)"
  unfolding set_update_def by (induction xs arbitrary: s) auto

lemma fill_vacancies_in:
  assumes "wf w h data"
  shows "\<exists>vs. fill_vacancies data (PointChecker w h) spawners = Inr vs \<and> distinct vs
     \<and> set vs = {q. PointChecker w h q \<and> elt (cells data) q = EMPTY
                    \<and> (\<exists>s \<in> set spawners. \<exists>d. q = step s d)}"
proof -
  define new where "new s = filter (\<lambda>q. elt (cells data) q = EMPTY)
      (get_nbr_points s (PointChecker w h))" for s
  define I where "I pre vs \<longleftrightarrow> distinct vs \<and> set vs = (\<Union>s \<in> set pre. set (new s))"
    for pre :: "point list" and vs
  have step: "ebind (filter_err (\<lambda>cell. ebind (nd_get (cells data) cell) (\<lambda>v. Inr (v = EMPTY)))
                 (get_nbr_points s (PointChecker w h)))
          (\<lambda>new. Inr (set_update vs new)) = Inr (set_update vs (new s))" for s vs
  proof -
    have "filter_err (\<lambda>cell. ebind (nd_get (cells data) cell) (\<lambda>v. Inr (v = EMPTY)))
                 (get_nbr_points s (PointChecker w h)) = Inr (new s)"
      unfolding new_def
    proof (rule filter_err_total)
      fix q assume "q \<in> set (get_nbr_points s (PointChecker w h))"
      then have "PointChecker w h q" by (simp add: set_get_nbr_points)
      with assms have "nd_get (cells data) q = Inr (elt (cells data) q)"
        by (auto simp: wf_def intro: nd_get_in)
      then show "ebind (nd_get (cells data) q) (\<lambda>v. Inr (v = EMPTY))
          = Inr (elt (cells data) q = EMPTY)"
        by simp
    qed
    then show ?thesis by simp
  qed
  have "\<exists>vs. fold_err (\<lambda>spawner vacancies.
        ebind (filter_err (\<lambda>cell. ebind (nd_get (cells data) cell) (\<lambda>v. Inr (v = EMPTY)))
                 (get_nbr_points spawner (PointChecker w h)))
          (\<lambda>new. Inr (set_update vacancies new))) spawners [] = Inr vs \<and> I spawners vs"
  proof (rule fold_err_prefix)
    show "I [] []" by (simp add: I_def)
  next
    fix s vs pre assume "I pre vs"
    then have "I (pre @ [s]) (set_update vs (new s))"
      by (auto simp: I_def distinct_set_update)
    then show "\<exists>s'. ebind (filter_err (\<lambda>cell. ebind (nd_get (cells data) cell) (\<lambda>v. Inr (v = EMPTY)))
                 (get_nbr_points s (PointChecker w h)))
          (\<lambda>new. Inr (set_update vs new)) = Inr s' \<and> I (pre @ [s]) s'"
      unfolding step by blast
  qed
  then obtain vs where vs: "fill_vacancies data (PointChecker w h) spawners = Inr vs"
    and Ivs: "I spawners vs"
    unfolding fill_vacancies_def by blast
  have "(\<Union>s \<in> set spawners. set (new s)) = {q. PointChecker w h q \<and> elt (cells data) q = EMPTY
                    \<and> (\<exists>s \<in> set spawners. \<exists>d. q = step s d)}"
    unfolding new_def by (auto simp: set_get_nbr_points)
  with vs Ivs show ?thesis unfolding I_def by simp
qed

lemma sample_picks_props:
  "k \<le> length pool \<Longrightarrow> sample_picks k pool r = (xs, r')
   \<Longrightarrow> set xs \<subseteq> set pool \<and> length xs = k"
proof (induction k arbitrary: pool r xs r')
  case 0
  then show ?case by simp
next
  case (Suc k)
  obtain d r1 where nd: "next_draw r = (d, r1)" by (cases "next_draw r")
  define j where "j = d mod length pool"
  define pool' where "pool' = take j pool @ drop (Suc j) pool"
  obtain rest r2 where sp: "sample_picks k pool' r1 = (rest, r2)"
    by (cases "sample_picks k pool' r1")
  from Suc.prems(1) have ne: "0 < length pool" by (cases pool) simp_all
  then have j: "j < length pool" by (simp add: j_def)
  then have len': "length pool' = length pool - 1" by (simp add: pool'_def)
  with Suc.prems(1) have "k \<le> length pool'" by simp
  from Suc.IH [OF this sp] have rest: "set rest \<subseteq> set pool'" "length rest = k" by simp_all
  have sub: "set pool' \<subseteq> set pool"
    unfolding pool'_def by (auto dest: in_set_takeD in_set_dropD)
  from Suc.prems(2) nd sp have "xs = pool ! j # rest"
    by (simp add: j_def pool'_def Let_def)
  with rest sub j show ?case by auto
qed

lemma random_sample_props:
  assumes "random_sample xs c r = Inr (heads, r')"
  shows "set heads \<subseteq> set xs \<and> int (length heads) = c"
proof -
  from assms have c: "0 \<le> c" "c \<le> int (length xs)"
    and sp: "sample_picks (nat c) xs r = (heads, r')"
    by (auto simp: random_sample_def split: if_splits)
  from c have "nat c \<le> length xs" by simp
  from sample_picks_props [OF this sp] c show ?thesis by simp
qed

lemma wires_in:
  assumes "wf w h data" and "\<forall>p \<in> set heads. PointChecker w h p"
  shows "\<exists>data'. fold_err (\<lambda>head d. wire head d (PointChecker w h)) heads data = Inr data'
     \<and> wf w h data' \<and> cells data' = cells data
     \<and> (\<forall>a b. PointChecker w h a \<and> PointChecker w h b \<longrightarrow>
           open_between data' a b =
             (open_between data a b
              \<or> (a \<in> set heads \<and> (\<exists>d. b = step a d) \<and> elt (cells data) b = SPAWNER)
              \<or> (b \<in> set heads \<and> (\<exists>d. a = step b d) \<and> elt (cells data) a = SPAWNER)))"
proof -
  define N where "N a b \<longleftrightarrow> (\<exists>d. b = step a d) \<and> elt (cells data) b = SPAWNER" for a b
  define I where "I pre data' \<longleftrightarrow> wf w h data' \<and> cells data' = cells data
     \<and> (\<forall>a b. PointChecker w h a \<and> PointChecker w h b \<longrightarrow>
           open_between data' a b =
             (open_between data a b \<or> (a \<in> set pre \<and> N a b) \<or> (b \<in> set pre \<and> N b a)))"
    for pre data'
  have "\<exists>data'. fold_err (\<lambda>head d. wire head d (PointChecker w h)) heads data = Inr data'
      \<and> I heads data'"
  proof (rule fold_err_prefix)
    show "I [] data" using assms(1) unfolding I_def by simp
  next
    fix p s pre assume p: "p \<in> set heads" and Is: "I pre s"
    from Is have wfs: "wf w h s" and cs: "cells s = cells data"
      and os: "\<And>a b. PointChecker w h a \<Longrightarrow> PointChecker w h b \<Longrightarrow>
           open_between s a b =
             (open_between data a b \<or> (a \<in> set pre \<and> N a b) \<or> (b \<in> set pre \<and> N b a))"
      unfolding I_def by blast+
    from p assms(2) have pin: "PointChecker w h p" by blast
    from wire_in [OF wfs pin] obtain s' where
      S: "wire p s (PointChecker w h) = Inr s' \<and> wf w h s' \<and> cells s' = cells s
     \<and> (\<forall>a b. PointChecker w h a \<and> PointChecker w h b \<longrightarrow>
           open_between s' a b =
             (open_between s a b
              \<or> (a = p \<and> (\<exists>d. b = step p d) \<and> elt (cells s) b = SPAWNER)
              \<or> (b = p \<and> (\<exists>d. a = step p d) \<and> elt (cells s) a = SPAWNER)))" ..
    note s' = S [THEN conjunct1] S [THEN conjunct2, THEN conjunct1]
      S [THEN conjunct2, THEN conjunct2, THEN conjunct1]
    have os': "open_between s' a b =
             (open_between s a b
              \<or> (a = p \<and> (\<exists>d. b = step p d) \<and> elt (cells s) b = SPAWNER)
              \<or> (b = p \<and> (\<exists>d. a = step p d) \<and> elt (cells s) a = SPAWNER))"
      if "PointChecker w h a" "PointChecker w h b" for a b
      using S [THEN conjunct2, THEN conjunct2, THEN conjunct2, rule_format, OF conjI, OF that] .
    have "open_between s' a b =
             (open_between data a b \<or> (a \<in> set (pre @ [p]) \<and> N a b)
               \<or> (b \<in> set (pre @ [p]) \<and> N b a))"
      if ab: "PointChecker w h a" "PointChecker w h b" for a b
    proof -
      have n1: "(a = p \<and> (\<exists>d. b = step p d) \<and> elt (cells s) b = SPAWNER) = (a = p \<and> N a b)"
        unfolding N_def cs by blast
      have n2: "(b = p \<and> (\<exists>d. a = step p d) \<and> elt (cells s) a = SPAWNER) = (b = p \<and> N b a)"
        unfolding N_def cs by blast
      show ?thesis
        unfolding os' [OF ab] os [OF ab] n1 n2 by auto
    qed
    then have "I (pre @ [p]) s'"
      unfolding I_def using s'(2,3) cs by presburger
    with s'(1) show "\<exists>s'. wire p s (PointChecker w h) = Inr s' \<and> I (pre @ [p]) s'"
      by blast
  qed
  then obtain data' where
    f: "fold_err (\<lambda>head d. wire head d (PointChecker w h)) heads data = Inr data'"
    and Id: "I heads data'"
    by blast
  from Id have A: "wf w h data' \<and> cells data' = cells data
     \<and> (\<forall>a b. PointChecker w h a \<and> PointChecker w h b \<longrightarrow>
           open_between data' a b =
             (open_between data a b
              \<or> (a \<in> set heads \<and> (\<exists>d. b = step a d) \<and> elt (cells data) b = SPAWNER)
              \<or> (b \<in> set heads \<and> (\<exists>d. a = step b d) \<and> elt (cells data) a = SPAWNER)))"
    unfolding I_def N_def .
  from f A have "fold_err (\<lambda>head d. wire head d (PointChecker w h)) heads data = Inr data'
     \<and> wf w h data' \<and> cells data' = cells data
     \<and> (\<forall>a b. PointChecker w h a \<and> PointChecker w h b \<longrightarrow>
           open_between data' a b =
             (open_between data a b
              \<or> (a \<in> set heads \<and> (\<exists>d. b = step a d) \<and> elt (cells data) b = SPAWNER)
              \<or> (b \<in> set heads \<and> (\<exists>d. a = step b d) \<and> elt (cells data) a = SPAWNER)))"
    by (rule conjI)
  then show ?thesis ..
qed

lemma links_mono:
  assumes "\<And>a b. PointChecker w h a \<Longrightarrow> PointChecker w h b \<Longrightarrow> open_between d1 a b
             \<Longrightarrow> open_between d2 a b"
  shows "(links w h d1)\<^sup>* \<subseteq> (links w h d2)\<^sup>*"
proof (rule rtrancl_mono)
  show "links w h d1 \<subseteq> links w h d2"
    using assms by (auto simp: links_def)
qed

section \<open>One iteration of the growth loop\<close>

lemma doors_areD:
  "doors_are w h data R \<Longrightarrow> PointChecker w h a \<Longrightarrow> PointChecker w h b
   \<Longrightarrow> open_between data a b = R a b"
  unfolding doors_are_def by blast

lemma cells_areD:
  "cells_are w h data f \<Longrightarrow> PointChecker w h q \<Longrightarrow> elt (cells data) q = f q"
  unfolding cells_are_def by blast

lemma wires_ok:
  assumes "wf w h data" and "\<forall>p \<in> set heads. PointChecker w h p"
  shows "\<exists>data'. fold_err (\<lambda>head d. wire head d (PointChecker w h)) heads data = Inr data'
     \<and> wf w h data' \<and> cells data' = cells data
     \<and> doors_are w h data' (\<lambda>a b. open_between data a b
              \<or> (a \<in> set heads \<and> (\<exists>d. b = step a d) \<and> elt (cells data) b = SPAWNER)
              \<or> (b \<in> set heads \<and> (\<exists>d. a = step b d) \<and> elt (cells data) a = SPAWNER))"
  using wires_in [OF assms] unfolding doors_are_def .

lemma set_cells_ok:
  assumes "wf w h data" and "\<forall>p \<in> set ps. PointChecker w h p"
  shows "\<exists>data'. set_cells t ps data = Inr data' \<and> wf w h data'
     \<and> hor_doors data' = hor_doors data \<and> ver_doors data' = ver_doors data
     \<and> cells_are w h data' (\<lambda>q. if q \<in> set ps then t else elt (cells data) q)"
  using set_cells_in [OF assms] unfolding cells_are_def .

lemma grow_step:
  assumes inv: "grow_inv w h e data spawners"
    and heads: "set heads \<subseteq> {q. PointChecker w h q \<and> elt (cells data) q = EMPTY
                    \<and> (\<exists>s \<in> set spawners. \<exists>d. q = step s d)}"
  shows "\<exists>data1 data2 data3.
      fold_err (\<lambda>head d. wire head d (PointChecker w h)) heads data = Inr data1
    \<and> set_cells BODY spawners data1 = Inr data2
    \<and> set_cells SPAWNER heads data2 = Inr data3
    \<and> grow_inv w h e data3 heads
    \<and> empties w h data3 \<subseteq> empties w h data - set heads"
proof -
  from inv have wf0: "wf w h data" and e: "PointChecker w h e" "elt (cells data) e \<noteq> EMPTY"
    and sp_in: "\<forall>p \<in> set spawners. PointChecker w h p"
    and sp_iff: "\<And>p. PointChecker w h p \<Longrightarrow> elt (cells data) p = SPAWNER \<longleftrightarrow> p \<in> set spawners"
    and d_ok: "\<And>a b. PointChecker w h a \<Longrightarrow> PointChecker w h b \<Longrightarrow> open_between data a b
           \<Longrightarrow> elt (cells data) a \<noteq> EMPTY"
    and conn: "\<And>p. PointChecker w h p \<Longrightarrow> elt (cells data) p \<noteq> EMPTY
           \<Longrightarrow> (e, p) \<in> (links w h data)\<^sup>*"
    unfolding grow_inv_def by blast+
  from heads have h_in: "\<forall>p \<in> set heads. PointChecker w h p" by blast
  define R where "R a b \<longleftrightarrow> open_between data a b
              \<or> (a \<in> set heads \<and> (\<exists>d. b = step a d) \<and> elt (cells data) b = SPAWNER)
              \<or> (b \<in> set heads \<and> (\<exists>d. a = step b d) \<and> elt (cells data) a = SPAWNER)"
    for a b
  from wires_ok [OF wf0 h_in] obtain data1 where
    d1: "fold_err (\<lambda>head d. wire head d (PointChecker w h)) heads data = Inr data1"
      "wf w h data1" "cells data1 = cells data" "doors_are w h data1 R"
    unfolding R_def by blast
  from set_cells_ok [OF d1(2) sp_in, of BODY] obtain data2 where
    d2: "set_cells BODY spawners data1 = Inr data2" "wf w h data2"
      "hor_doors data2 = hor_doors data1" "ver_doors data2 = ver_doors data1"
      "cells_are w h data2 (\<lambda>q. if q \<in> set spawners then BODY else elt (cells data1) q)"
    by blast
  from set_cells_ok [OF d2(2) h_in, of SPAWNER] obtain data3 where
    d3: "set_cells SPAWNER heads data2 = Inr data3" "wf w h data3"
      "hor_doors data3 = hor_doors data2" "ver_doors data3 = ver_doors data2"
      "cells_are w h data3 (\<lambda>q. if q \<in> set heads then SPAWNER else elt (cells data2) q)"
    by blast
  have C3: "elt (cells data3) q =
      (if q \<in> set heads then SPAWNER else if q \<in> set spawners then BODY
       else elt (cells data) q)" if "PointChecker w h q" for q
    using cells_areD [OF d3(5) that] cells_areD [OF d2(5) that] d1(3) by simp
  have O3: "open_between data3 a b = R a b"
    if "PointChecker w h a" "PointChecker w h b" for a b
  proof -
    have "open_between data3 a b = open_between data1 a b"
      by (rule open_between_doors_only) (simp_all add: d3 d2)
    with doors_areD [OF d1(4) that] show ?thesis by simp
  qed
  have i3: "elt (cells data3) e \<noteq> EMPTY"
    using C3 [OF e(1)] e(2) by simp
  have i5: "elt (cells data3) p = SPAWNER \<longleftrightarrow> p \<in> set heads" if "PointChecker w h p" for p
    using C3 [OF that] sp_iff [OF that] by simp
  have i6: "elt (cells data3) a \<noteq> EMPTY"
    if ab: "PointChecker w h a" "PointChecker w h b" and o: "open_between data3 a b" for a b
  proof -
    from o O3 [OF ab] have "R a b" by simp
    then consider "open_between data a b" | "a \<in> set heads"
      | "elt (cells data) a = SPAWNER"
      unfolding R_def by blast
    then show ?thesis
    proof cases
      case 1
      from d_ok [OF ab 1] C3 [OF ab(1)] show ?thesis by simp
    next
      case 2
      with C3 [OF ab(1)] show ?thesis by simp
    next
      case 3
      with C3 [OF ab(1)] show ?thesis by simp
    qed
  qed
  have mono: "(links w h data)\<^sup>* \<subseteq> (links w h data3)\<^sup>*"
  proof (rule links_mono)
    fix a b assume "PointChecker w h a" "PointChecker w h b" "open_between data a b"
    then show "open_between data3 a b" using O3 by (simp add: R_def)
  qed
  have i7: "(e, p) \<in> (links w h data3)\<^sup>*"
    if p: "PointChecker w h p" and ne: "elt (cells data3) p \<noteq> EMPTY" for p
  proof (cases "p \<in> set heads")
    case True
    with heads obtain s d where s: "s \<in> set spawners" "p = step s d" by blast
    from s(1) sp_in have s_in: "PointChecker w h s" by blast
    with sp_iff s(1) have sS: "elt (cells data) s = SPAWNER" by blast
    from step_back [of s d] s(2) obtain d' where "s = step p d'" by metis
    with True sS have "R p s" unfolding R_def by blast
    with O3 [OF p s_in] have "open_between data3 p s" by simp
    then have "open_between data3 s p" by (simp add: open_between_sym)
    with p s_in have "(s, p) \<in> links w h data3" by (simp add: links_def)
    moreover from conn [OF s_in] sS mono have "(e, s) \<in> (links w h data3)\<^sup>*" by auto
    ultimately show ?thesis by (rule rtrancl_into_rtrancl [rotated])
  next
    case False
    with ne C3 [OF p] sp_iff [OF p] have "elt (cells data) p \<noteq> EMPTY"
      by (auto split: if_splits)
    from conn [OF p this] mono show ?thesis by blast
  qed
  have i8: "empties w h data3 \<subseteq> empties w h data - set heads"
    using C3 by (auto simp: empties_def split: if_splits)
  have "grow_inv w h e data3 heads"
    unfolding grow_inv_def using d3(2) e(1) i3 h_in i5 i6 i7 by blast
  with d1(1) d2(1) d3(1) i8 show ?thesis by blast
qed

lemma grow_exit:
  assumes inv: "grow_inv w h e data spawners"
  shows "\<exists>data1. set_cells BODY spawners data = Inr data1 \<and> grow_inv w h e data1 []"
proof -
  from inv have wf0: "wf w h data" and e: "PointChecker w h e" "elt (cells data) e \<noteq> EMPTY"
    and sp_in: "\<forall>p \<in> set spawners. PointChecker w h p"
    and sp_iff: "\<And>p. PointChecker w h p \<Longrightarrow> elt (cells data) p = SPAWNER \<longleftrightarrow> p \<in> set spawners"
    and d_ok: "\<And>a b. PointChecker w h a \<Longrightarrow> PointChecker w h b \<Longrightarrow> open_between data a b
           \<Longrightarrow> elt (cells data) a \<noteq> EMPTY"
    and conn: "\<And>p. PointChecker w h p \<Longrightarrow> elt (cells data) p \<noteq> EMPTY
           \<Longrightarrow> (e, p) \<in> (links w h data)\<^sup>*"
    unfolding grow_inv_def by blast+
  from set_cells_ok [OF wf0 sp_in, of BODY] obtain data1 where
    d1: "set_cells BODY spawners data = Inr data1" "wf w h data1"
      "hor_doors data1 = hor_doors data" "ver_doors data1 = ver_doors data"
      "cells_are w h data1 (\<lambda>q. if q \<in> set spawners then BODY else elt (cells data) q)"
    by blast
  have C1: "elt (cells data1) q = (if q \<in> set spawners then BODY else elt (cells data) q)"
    if "PointChecker w h q" for q
    using cells_areD [OF d1(5) that] .
  have O1: "open_between data1 a b = open_between data a b" for a b
    by (rule open_between_doors_only) (simp_all add: d1)
  have L1: "links w h data1 = links w h data"
    by (simp add: links_def O1)
  have i3: "elt (cells data1) e \<noteq> EMPTY"
    using C1 [OF e(1)] e(2) by simp
  have i5: "elt (cells data1) p = SPAWNER \<longleftrightarrow> p \<in> {}" if "PointChecker w h p" for p
    using C1 [OF that] sp_iff [OF that] by simp
  have i6: "elt (cells data1) a \<noteq> EMPTY"
    if ab: "PointChecker w h a" "PointChecker w h b" and o: "open_between data1 a b" for a b
    using d_ok [OF ab] o C1 [OF ab(1)] by (simp add: O1)
  have i7: "(e, p) \<in> (links w h data1)\<^sup>*"
    if p: "PointChecker w h p" and ne: "elt (cells data1) p \<noteq> EMPTY" for p
  proof -
    from ne C1 [OF p] sp_iff [OF p] have "elt (cells data) p \<noteq> EMPTY"
      by (auto split: if_splits)
    from conn [OF p this] show ?thesis by (simp add: L1)
  qed
  have "grow_inv w h e data1 []"
    unfolding grow_inv_def list.set using d1(2) e(1) i3 i5 i6 i7 by blast
  with d1(1) show ?thesis by blast
qed

lemma heads_in_vacancies:
  assumes ord: "\<And>xs. set (ord xs) = set xs"
    and pick: "(if int (length vs) > c then random_sample (sort vs) c r else Inr (ord vs, r))
                 = Inr (heads, r1)"
  shows "set heads \<subseteq> set vs"
proof (cases "int (length vs) > c")
  case True
  with pick have "random_sample (sort vs) c r = Inr (heads, r1)" by simp
  from random_sample_props [OF this] show ?thesis by simp
next
  case False
  with pick ord show ?thesis by auto
qed

lemma grow_reaches_finish:
  assumes ord: "\<And>xs. set (ord xs) = set xs"
  shows "grow_inv w h e data spawners
    \<Longrightarrow> grow ord fuel w h data (PointChecker w h) chance c spawners r = Some (Inr out)
    \<Longrightarrow> \<exists>data' r'. grow_inv w h e data' [] \<and> finish w h data' (PointChecker w h) chance r' = Inr out"
proof (induction fuel arbitrary: data spawners r)
  case 0
  then show ?case by simp
next
  case (Suc fuel)
  from Suc.prems(1) have wf0: "wf w h data" unfolding grow_inv_def by blast
  from fill_vacancies_in [OF wf0, of spawners] obtain vs where
    vs: "fill_vacancies data (PointChecker w h) spawners = Inr vs"
    and set_vs: "set vs = {q. PointChecker w h q \<and> elt (cells data) q = EMPTY
                    \<and> (\<exists>s \<in> set spawners. \<exists>d. q = step s d)}"
    by blast
  show ?case
  proof (cases "vs = []")
    case True
    from grow_exit [OF Suc.prems(1)] obtain data1 where
      d1: "set_cells BODY spawners data = Inr data1" "grow_inv w h e data1 []"
      by blast
    from Suc.prems(2) have "finish w h data1 (PointChecker w h) chance r = Inr out"
      by (simp add: vs True d1(1))
    with d1(2) show ?thesis by blast
  next
    case False
    let ?pick = "if int (length vs) > c then random_sample (sort vs) c r else Inr (ord vs, r)"
    from Suc.prems(2) False have g: "obind ?pick (\<lambda>picked.
       case picked of (heads, r1) \<Rightarrow>
       obind (fold_err (\<lambda>head d. wire head d (PointChecker w h)) heads data) (\<lambda>data1.
       obind (set_cells BODY spawners data1) (\<lambda>data2.
       obind (set_cells SPAWNER heads data2) (\<lambda>data3.
       grow ord fuel w h data3 (PointChecker w h) chance c heads r1)))) = Some (Inr out)"
      by (simp add: vs)
    then obtain picked where pk: "?pick = Inr picked"
      and g1: "(case picked of (heads, r1) \<Rightarrow>
       obind (fold_err (\<lambda>head d. wire head d (PointChecker w h)) heads data) (\<lambda>data1.
       obind (set_cells BODY spawners data1) (\<lambda>data2.
       obind (set_cells SPAWNER heads data2) (\<lambda>data3.
       grow ord fuel w h data3 (PointChecker w h) chance c heads r1)))) = Some (Inr out)"
      unfolding obind_Some_Inr_iff by blast
    obtain heads r1 where picked: "picked = (heads, r1)" by (cases picked)
    from pk have "?pick = Inr (heads, r1)" by (simp add: picked)
    from heads_in_vacancies [OF ord this]
    have "set heads \<subseteq> set vs" .
    with set_vs have hs: "set heads \<subseteq> {q. PointChecker w h q \<and> elt (cells data) q = EMPTY
                    \<and> (\<exists>s \<in> set spawners. \<exists>d. q = step s d)}"
      by simp
    from grow_step [OF Suc.prems(1) hs] obtain data1 data2 data3 where
      st: "fold_err (\<lambda>head d. wire head d (PointChecker w h)) heads data = Inr data1"
        "set_cells BODY spawners data1 = Inr data2"
        "set_cells SPAWNER heads data2 = Inr data3"
        "grow_inv w h e data3 heads"
      by blast
    from g1 have "grow ord fuel w h data3 (PointChecker w h) chance c heads r1 = Some (Inr out)"
      by (simp add: picked st)
    from Suc.IH [OF st(4) this] show ?thesis .
  qed
qed

lemma grid_points: "{p. PointChecker w h p} = {0..<w} \<times> {0..<h}"
  by auto

lemma finite_grid_points [simp]: "finite {p. PointChecker w h p}"
  unfolding grid_points by simp

lemma card_grid_points: "card {p. PointChecker w h p} = nat w * nat h"
  unfolding grid_points by (simp add: card_cartesian_product)

lemma finite_empties [simp]: "finite (empties w h data)"
  by (rule finite_subset [of _ "{p. PointChecker w h p}"]) (auto simp: empties_def)

lemma heads_nonempty:
  assumes ord: "\<And>xs. set (ord xs) = set xs" and c: "1 \<le> c" and vs: "vs \<noteq> []"
    and pick: "(if int (length vs) > c then random_sample (sort vs) c r else Inr (ord vs, r))
                 = Inr (heads, r1)"
  shows "heads \<noteq> []"
proof (cases "int (length vs) > c")
  case True
  with pick have "random_sample (sort vs) c r = Inr (heads, r1)" by simp
  from random_sample_props [OF this] c show ?thesis by auto
next
  case False
  with pick have "heads = ord vs" by simp
  with ord [of vs] vs show ?thesis by (metis set_empty)
qed

lemma grow_terminates:
  assumes ord: "\<And>xs. set (ord xs) = set xs" and c: "1 \<le> c"
  shows "grow_inv w h e data spawners \<Longrightarrow> card (empties w h data) < fuel
    \<Longrightarrow> grow ord fuel w h data (PointChecker w h) chance c spawners r \<noteq> None"
proof (induction fuel arbitrary: data spawners r)
  case 0
  then show ?case by simp
next
  case (Suc fuel)
  from Suc.prems(1) have wf0: "wf w h data" unfolding grow_inv_def by blast
  from fill_vacancies_in [OF wf0, of spawners] obtain vs where
    vs: "fill_vacancies data (PointChecker w h) spawners = Inr vs"
    and set_vs: "set vs = {q. PointChecker w h q \<and> elt (cells data) q = EMPTY
                    \<and> (\<exists>s \<in> set spawners. \<exists>d. q = step s d)}"
    by blast
  show ?case
  proof (cases "vs = []")
    case True
    then show ?thesis by (simp add: vs)
  next
    case False
    let ?pick = "if int (length vs) > c then random_sample (sort vs) c r else Inr (ord vs, r)"
    show ?thesis
    proof (cases ?pick)
      case (Inl err)
      with False show ?thesis by (simp add: vs)
    next
      case (Inr picked)
      obtain heads r1 where picked: "picked = (heads, r1)" by (cases picked)
      from Inr have pk: "?pick = Inr (heads, r1)" by (simp add: picked)
      from heads_in_vacancies [OF ord pk] have sub: "set heads \<subseteq> set vs" .
      from heads_nonempty [OF ord c False pk] have ne: "heads \<noteq> []" .
      from sub set_vs have hs: "set heads \<subseteq> {q. PointChecker w h q \<and> elt (cells data) q = EMPTY
                    \<and> (\<exists>s \<in> set spawners. \<exists>d. q = step s d)}"
        by simp
      from grow_step [OF Suc.prems(1) hs] obtain data1 data2 data3 where
        st: "fold_err (\<lambda>head d. wire head d (PointChecker w h)) heads data = Inr data1"
          "set_cells BODY spawners data1 = Inr data2"
          "set_cells SPAWNER heads data2 = Inr data3"
          "grow_inv w h e data3 heads"
          "empties w h data3 \<subseteq> empties w h data - set heads"
        by blast
      from ne obtain x where x: "x \<in> set heads" by (cases heads) auto
      with hs have "x \<in> empties w h data" by (auto simp: empties_def)
      with x st(5) have "empties w h data3 \<subset> empties w h data" by blast
      then have "card (empties w h data3) < card (empties w h data)"
        by (rule psubset_card_mono [rotated]) simp
      with Suc.prems(2) have "card (empties w h data3) < fuel" by simp
      from Suc.IH [OF st(4) this]
      have "grow ord fuel w h data3 (PointChecker w h) chance c heads r1 \<noteq> None" .
      with False pk show ?thesis
        by (simp add: vs st picked)
    qed
  qed
qed

lemma generate_start:
  assumes "0 < w" "0 < h" "0 \<le> px" "px < w" "0 \<le> py" "py < h" "0 < chance" "chance < 1"
    "0 \<le> c"
  shows "\<exists>data. (\<forall>ord fuel r. generate ord fuel w h px py chance c r
            = grow ord fuel w h data (PointChecker w h) chance c [(px, py)] r)
     \<and> grow_inv w h (px, py) data [(px, py)]
     \<and> empties w h data = {p. PointChecker w h p} - {(px, py)}"
proof -
  from assms have e: "PointChecker w h (px, py)" by simp
  from np_full_ok [of w h EMPTY] assms obtain cells0 where
    c0: "np_full w h EMPTY = Inr cells0" "shape cells0 w h"
      "\<And>q. PointChecker w h q \<Longrightarrow> elt cells0 q = EMPTY"
    by auto
  from np_full_ok [of "w - 1" h False] assms obtain hor where
    hor: "np_full (w - 1) h False = Inr hor" "shape hor (w - 1) h"
      "\<And>q. PointChecker (w - 1) h q \<Longrightarrow> elt hor q = False"
    by auto
  from np_full_ok [of w "h - 1" False] assms obtain ver where
    ver: "np_full w (h - 1) False = Inr ver" "shape ver w (h - 1)"
      "\<And>q. PointChecker w (h - 1) q \<Longrightarrow> elt ver q = False"
    by auto
  from nd_set_in [OF c0(2) e, of SPAWNER] obtain cells1 where
    c1: "nd_set cells0 (px, py) SPAWNER = Inr cells1" "shape cells1 w h"
      "\<And>q. PointChecker w h q \<Longrightarrow> elt cells1 q = (if q = (px, py) then SPAWNER else elt cells0 q)"
    by blast
  define data where "data = \<lparr>cells = cells1, hor_doors = hor, ver_doors = ver\<rparr>"
  have g: "generate ord fuel w h px py chance c r
            = grow ord fuel w h data (PointChecker w h) chance c [(px, py)] r" for ord fuel r
    using assms by (simp add: generate_def c0(1) hor(1) ver(1) c1(1) data_def)
  have wfd: "wf w h data" by (simp add: wf_def data_def c1 hor ver)
  have C: "elt (cells data) q = (if q = (px, py) then SPAWNER else EMPTY)"
    if "PointChecker w h q" for q
    using c1(3) [OF that] c0(3) [OF that] by (simp add: data_def)
  have O: "\<not> open_between data a b" if "PointChecker w h a" "PointChecker w h b" for a b
  proof (cases a, cases b)
    fix ax ay bx "by" assume ab: "a = (ax, ay)" "b = (bx, by)"
    have "bx = ax + 1 \<Longrightarrow> by = ay \<Longrightarrow> \<not> elt hor (ax, ay)"
      using that ab by (intro hor(3) [THEN iffD1 [OF eq_False]]) simp
    moreover have "ax = bx + 1 \<Longrightarrow> by = ay \<Longrightarrow> \<not> elt hor (bx, ay)"
      using that ab by (intro hor(3) [THEN iffD1 [OF eq_False]]) simp
    moreover have "by = ay + 1 \<Longrightarrow> bx = ax \<Longrightarrow> \<not> elt ver (ax, ay)"
      using that ab by (intro ver(3) [THEN iffD1 [OF eq_False]]) simp
    moreover have "ay = by + 1 \<Longrightarrow> bx = ax \<Longrightarrow> \<not> elt ver (ax, by)"
      using that ab by (intro ver(3) [THEN iffD1 [OF eq_False]]) simp
    ultimately show ?thesis
      unfolding open_between_def ab data_def by auto
  qed
  have i7: "((px, py), p) \<in> (links w h data)\<^sup>*"
    if "PointChecker w h p" "elt (cells data) p \<noteq> EMPTY" for p
  proof -
    from that C have "p = (px, py)" by (auto split: if_splits)
    then show ?thesis by simp
  qed
  have inv: "grow_inv w h (px, py) data [(px, py)]"
    unfolding grow_inv_def using wfd e C O i7 by auto
  have "empties w h data = {p. PointChecker w h p} - {(px, py)}"
    using C by (auto simp: empties_def)
  with g inv show ?thesis by blast
qed

lemma generate_init:
  assumes "0 < w" "0 < h" "0 \<le> px" "px < w" "0 \<le> py" "py < h" "0 < chance" "chance < 1"
    "0 \<le> c"
  shows "\<exists>data. generate ord fuel w h px py chance c r
            = grow ord fuel w h data (PointChecker w h) chance c [(px, py)] r
     \<and> grow_inv w h (px, py) data [(px, py)]
     \<and> empties w h data = {p. PointChecker w h p} - {(px, py)}"
  using generate_start [OF assms] by blast

section \<open>The dead-end pass\<close>

lemma set_door_ok:
  assumes "wf w h data" and "PointChecker w h p" and "PointChecker w h (step p d)"
  shows "\<exists>data'. set_door p d v data = Inr data' \<and> wf w h data' \<and> cells data' = cells data
     \<and> doors_are w h data' (\<lambda>a b.
           if (a = p \<and> b = step p d) \<or> (a = step p d \<and> b = p) then v
           else open_between data a b)"
  using set_door_in [OF assms] unfolding doors_are_def .

lemma add_door_inv:
  assumes J: "dead_end_inv w h D data" and p: "PointChecker w h p"
    and bp: "elt (cells D) p = BODY" and d: "d \<in> set (body_dirs w h D p)"
  shows "\<exists>data1. set_door p d True data = Inr data1 \<and> dead_end_inv w h D data1"
proof -
  from J have wf0: "wf w h data" and c0: "cells data = cells D"
    and keep: "\<And>a b. PointChecker w h a \<Longrightarrow> PointChecker w h b \<Longrightarrow> open_between D a b
                 \<Longrightarrow> open_between data a b"
    and ok: "\<And>a b. PointChecker w h a \<Longrightarrow> PointChecker w h b \<Longrightarrow> open_between data a b
                 \<Longrightarrow> elt (cells D) a = BODY"
    unfolding dead_end_inv_def by blast+
  from d have q: "PointChecker w h (step p d)" and bq: "elt (cells D) (step p d) = BODY"
    unfolding body_dirs_def by simp_all
  from set_door_ok [OF wf0 p q, of True] obtain data1 where
    d1: "set_door p d True data = Inr data1" "wf w h data1" "cells data1 = cells data"
      "doors_are w h data1 (\<lambda>a b.
           if (a = p \<and> b = step p d) \<or> (a = step p d \<and> b = p) then True
           else open_between data a b)"
    by blast
  have O1: "open_between data1 a b =
      ((a = p \<and> b = step p d) \<or> (a = step p d \<and> b = p) \<or> open_between data a b)"
    if "PointChecker w h a" "PointChecker w h b" for a b
    unfolding doors_areD [OF d1(4) that] by auto
  have k1: "open_between data1 a b"
    if "PointChecker w h a" "PointChecker w h b" "open_between D a b" for a b
    using O1 [OF that(1,2)] keep [OF that] by simp
  have ok1: "elt (cells D) a = BODY"
    if "PointChecker w h a" "PointChecker w h b" "open_between data1 a b" for a b
    using O1 [OF that(1,2)] that(3) ok [OF that(1,2)] bp bq by blast
  have "dead_end_inv w h D data1"
    unfolding dead_end_inv_def using d1(2) d1(3) c0 k1 ok1 by auto
  with d1(1) show ?thesis by blast
qed

lemma list_remove_Inr: "list_remove x xs = Inr ys \<Longrightarrow> x \<in> set xs \<and> ys = remove1 x xs"
  by (auto simp: list_remove_def split: if_splits)

lemma random_choice_Inr: "random_choice xs r = Inr picked \<Longrightarrow> fst picked \<in> set xs"
  by (auto simp: random_choice_def split: if_splits prod.splits)

lemma extra_doors_inv:
  "dead_end_inv w h D data \<Longrightarrow> PointChecker w h p \<Longrightarrow> elt (cells D) p = BODY
   \<Longrightarrow> set dirs \<subseteq> set (body_dirs w h D p)
   \<Longrightarrow> extra_doors p dirs data chance r = Inr (data', r')
   \<Longrightarrow> dead_end_inv w h D data'"
proof (induction p dirs data chance r rule: extra_doors.induct)
  case (1 point dirs data chance r)
  obtain u r1 where rr: "random_random r = (u, r1)" by (cases "random_random r")
  show ?case
  proof (cases "0 < length dirs \<and> u \<le> chance")
    case False
    with "1.prems"(5) rr have "data' = data"
      by (subst (asm) extra_doors.simps) (auto split: if_splits)
    with "1.prems"(1) show ?thesis by simp
  next
    case True
    with "1.prems"(5) rr have run:
      "ebind (random_choice dirs r1) (\<lambda>picked.
         ebind (set_door point (fst picked) True data) (\<lambda>data1.
         ebind (list_remove (fst picked) dirs) (\<lambda>dirs1.
         extra_doors point dirs1 data1 chance (snd picked)))) = Inr (data', r')"
      by (subst (asm) extra_doors.simps) simp
    then obtain picked where pk: "random_choice dirs r1 = Inr picked"
      and run1: "ebind (set_door point (fst picked) True data) (\<lambda>data1.
         ebind (list_remove (fst picked) dirs) (\<lambda>dirs1.
         extra_doors point dirs1 data1 chance (snd picked))) = Inr (data', r')"
      unfolding ebind_Inr_iff by blast
    from random_choice_Inr [OF pk] "1.prems"(4)
    have din: "fst picked \<in> set (body_dirs w h D point)" by blast
    from add_door_inv [OF "1.prems"(1,2,3) din] obtain data1 where
      d1: "set_door point (fst picked) True data = Inr data1" "dead_end_inv w h D data1"
      by blast
    from run1 d1(1) obtain dirs1 where lr: "list_remove (fst picked) dirs = Inr dirs1"
      and run2: "extra_doors point dirs1 data1 chance (snd picked) = Inr (data', r')"
      by (auto simp: ebind_Inr_iff)
    from list_remove_Inr [OF lr] "1.prems"(4)
    have sub: "set dirs1 \<subseteq> set (body_dirs w h D point)"
      using set_remove1_subset by fastforce
    from True rr have "0 < length dirs" "(u, r1) = random_random r" "u \<le> chance" by simp_all
    from "1.IH" [OF this pk d1(1) lr d1(2) "1.prems"(2,3) sub run2] show ?thesis .
  qed
qed

lemma first_door_found:
  "first_door p ds data first = Inr (Scanned (Some f)) \<Longrightarrow> f \<in> set ds \<or> first = Some f"
proof (induction ds arbitrary: first)
  case Nil
  then show ?case by simp
next
  case (Cons d ds)
  from Cons.prems obtain door where gd: "get_door p d data = Inr door"
    and rest: "(if door then (if first \<noteq> None then Inr SecondDoor
          else first_door p ds data (Some d))
       else first_door p ds data first) = Inr (Scanned (Some f))"
    by (auto simp: ebind_Inr_iff)
  show ?case
  proof (cases door)
    case True
    with rest have "first = None" "first_door p ds data (Some d) = Inr (Scanned (Some f))"
      by (auto split: if_splits)
    from Cons.IH [OF this(2)] show ?thesis by auto
  next
    case False
    with rest have "first_door p ds data first = Inr (Scanned (Some f))" by simp
    from Cons.IH [OF this] show ?thesis by auto
  qed
qed

lemma process_dead_end_inv:
  assumes J: "dead_end_inv w h D data" and p: "PointChecker w h p"
    and run: "process_as_if_dead_end p data (PointChecker w h) chance r = Inr (ret, data', r')"
  shows "dead_end_inv w h D data'
     \<and> (ret = Some True \<longrightarrow> elt (cells D) p = BODY \<and> length (body_dirs w h D p) = 1)"
proof -
  from J have wf0: "wf w h data" and c0: "cells data = cells D"
    unfolding dead_end_inv_def by blast+
  from wf0 have "shape (cells data) w h" by (simp add: wf_def)
  from nd_get_in [OF this p] c0 have get: "nd_get (cells data) p = Inr (elt (cells D) p)"
    by simp
  have dirs: "nbr_dirs_of BODY p data (PointChecker w h) = Inr (body_dirs w h D p)"
    using nbr_dirs_of_in [OF wf0, of BODY p] c0 by (simp add: body_dirs_def)
  let ?dirs = "body_dirs w h D p"
  show ?thesis
  proof (cases "elt (cells D) p = BODY")
    case False
    with run get have "ret = None" "data' = data"
      by (simp_all add: process_as_if_dead_end_def)
    with J show ?thesis by simp
  next
    case body: True
    show ?thesis
    proof (cases "length ?dirs = 1")
      case True
      with run get dirs body have "data' = data"
        by (simp add: process_as_if_dead_end_def)
      with J body True show ?thesis by simp
    next
      case False
      note defs = process_as_if_dead_end_def get dirs body
      show ?thesis
      proof (cases "first_door p ?dirs data None")
        case (Inl err)
        with run False show ?thesis by (simp add: defs)
      next
        case fd: (Inr s)
        show ?thesis
        proof (cases s)
          case SecondDoor
          with run False fd have "ret = None \<and> data' = data" by (simp add: defs)
          with J show ?thesis by simp
        next
          case (Scanned first)
          show ?thesis
          proof (cases first)
            case None
            with run False fd Scanned show ?thesis by (simp add: defs)
          next
            case (Some f)
            note fd' = fd Scanned Some
            show ?thesis
            proof (cases "list_remove f ?dirs")
              case (Inl err)
              with run False fd' show ?thesis by (simp add: defs)
            next
              case lr: (Inr dirs1)
              from list_remove_Inr [OF lr] have sub1: "set dirs1 \<subseteq> set ?dirs"
                using set_remove1_subset by fastforce
              show ?thesis
              proof (cases "random_choice dirs1 r")
                case (Inl err)
                with run False fd' lr show ?thesis by (simp add: defs)
              next
                case pk: (Inr picked)
                from sub1 random_choice_Inr [OF pk] have din: "fst picked \<in> set ?dirs"
                  by blast
                from add_door_inv [OF J p body din] obtain data1 where
                  sd: "set_door p (fst picked) True data = Inr data1"
                  and d1: "dead_end_inv w h D data1"
                  by blast
                show ?thesis
                proof (cases "list_remove (fst picked) dirs1")
                  case (Inl err)
                  with run False fd' lr pk sd show ?thesis by (simp add: defs)
                next
                  case lr2: (Inr dirs2)
                  from list_remove_Inr [OF lr2] sub1 have sub2: "set dirs2 \<subseteq> set ?dirs"
                    using set_remove1_subset by fastforce
                  show ?thesis
                  proof (cases "extra_doors p dirs2 data1 chance (snd picked)")
                    case (Inl err)
                    with run False fd' lr pk sd lr2 show ?thesis by (simp add: defs)
                  next
                    case ex: (Inr res)
                    with run False fd' lr pk sd lr2
                    have fin: "ret = Some False" "data' = fst res"
                      by (auto simp: defs)
                    from ex have
                      "extra_doors p dirs2 data1 chance (snd picked) = Inr (fst res, snd res)"
                      by simp
                    from extra_doors_inv [OF d1 p body sub2 this]
                    have "dead_end_inv w h D (fst res)" .
                    with fin show ?thesis by simp
                  qed
                qed
              qed
            qed
          qed
        qed
      qed
    qed
  qed
qed

section \<open>Chests and big rooms\<close>

lemma fold_err_invariant:
  "fold_err f xs s0 = Inr s' \<Longrightarrow> I s0
   \<Longrightarrow> (\<And>x s s1. x \<in> set xs \<Longrightarrow> I s \<Longrightarrow> f x s = Inr s1 \<Longrightarrow> I s1) \<Longrightarrow> I s'"
proof (induction xs arbitrary: s0)
  case Nil
  then show ?case by simp
next
  case (Cons x xs)
  from Cons.prems(1) obtain s1 where s1: "f x s0 = Inr s1" "fold_err f xs s1 = Inr s'"
    by (cases "f x s0") simp_all
  from Cons.prems(3) [OF _ Cons.prems(2) s1(1)] have "I s1" by simp
  show ?case
  proof (rule Cons.IH [OF s1(2) \<open>I s1\<close>])
    fix y s t assume "y \<in> set xs" "I s" "f y s = Inr t"
    with Cons.prems(3) [of y s t] show "I t" by simp
  qed
qed

lemma dead_end_pass:
  assumes J0: "dead_end_inv w h D D"
    and run: "fold_err (\<lambda>cell st.
              case st of (chests, data', r') \<Rightarrow>
                ebind (process_as_if_dead_end cell data' (PointChecker w h) chance r') (\<lambda>res.
                case res of (ret, data'', r'') \<Rightarrow>
                  Inr (if ret = Some True then chests @ [cell] else chests, data'', r'')))
              (grid w h) ([], D, r) = Inr (chests, data1, r1)"
  shows "dead_end_inv w h D data1
     \<and> (\<forall>ch \<in> set chests. PointChecker w h ch \<and> elt (cells D) ch = BODY
           \<and> length (body_dirs w h D ch) = 1)"
proof -
  define I where "I st \<longleftrightarrow> dead_end_inv w h D (fst (snd st))
     \<and> (\<forall>ch \<in> set (fst st). PointChecker w h ch \<and> elt (cells D) ch = BODY
           \<and> length (body_dirs w h D ch) = 1)" for st :: "point list \<times> arrays \<times> rng"
  have "I (chests, data1, r1)"
  proof (rule fold_err_invariant [OF run])
    show "I ([], D, r)" using J0 by (simp add: I_def)
  next
    fix cell and st st1 :: "point list \<times> arrays \<times> rng"
    assume cell: "cell \<in> set (grid w h)" and Is: "I st"
      and step: "(case st of (chests, data', r') \<Rightarrow>
                ebind (process_as_if_dead_end cell data' (PointChecker w h) chance r') (\<lambda>res.
                case res of (ret, data'', r'') \<Rightarrow>
                  Inr (if ret = Some True then chests @ [cell] else chests, data'', r'')))
             = Inr st1"
    obtain cs d0 r0 where st: "st = (cs, d0, r0)" by (cases st)
    from cell have cin: "PointChecker w h cell" by simp
    from Is st have J: "dead_end_inv w h D d0"
      and chs: "\<forall>ch \<in> set cs. PointChecker w h ch \<and> elt (cells D) ch = BODY
           \<and> length (body_dirs w h D ch) = 1"
      by (simp_all add: I_def)
    from step st obtain res where
      pr: "process_as_if_dead_end cell d0 (PointChecker w h) chance r0 = Inr res"
      and st1: "(case res of (ret, data'', r'') \<Rightarrow>
                  Inr (if ret = Some True then cs @ [cell] else cs, data'', r'')) = Inr st1"
      by (auto simp: ebind_Inr_iff)
    obtain ret d2 r2 where res: "res = (ret, d2, r2)" by (cases res)
    from process_dead_end_inv [OF J cin pr [unfolded res]]
    have J2: "dead_end_inv w h D d2"
      and leaf: "ret = Some True \<longrightarrow> elt (cells D) cell = BODY \<and> length (body_dirs w h D cell) = 1"
      by blast+
    from st1 res have "st1 = (if ret = Some True then cs @ [cell] else cs, d2, r2)" by simp
    with J2 leaf chs cin show "I st1" by (simp add: I_def)
  qed
  then show ?thesis by (simp add: I_def)
qed

lemma open_right [simp]: "open_between data (x, y) (x + 1, y) = elt (hor_doors data) (x, y)"
  by (simp add: open_between_def)

lemma open_down [simp]: "open_between data (x, y) (x, y + 1) = elt (ver_doors data) (x, y)"
  by (simp add: open_between_def)

lemma big_cell_filter_in:
  assumes "wf w h data" and c: "PointChecker (w - 1) (h - 1) c"
  shows "big_cell_filter c data = Inr (block_wired data c)"
proof -
  obtain x y where xy: "c = (x, y)" by (cases c)
  from assms have hs: "shape (hor_doors data) (w - 1) h" and vs: "shape (ver_doors data) w (h - 1)"
    by (simp_all add: wf_def)
  from c xy have b: "PointChecker (w - 1) h (x, y)" "PointChecker w (h - 1) (x, y)"
    "PointChecker (w - 1) h (x, y + 1)" "PointChecker w (h - 1) (x + 1, y)"
    by simp_all
  note g = nd_get_in [OF hs b(1)] nd_get_in [OF vs b(2)] nd_get_in [OF hs b(3)]
    nd_get_in [OF vs b(4)]
  show ?thesis
    unfolding big_cell_filter_def xy block_wired_def by (simp add: g)
qed

lemma max_point_difference_sym: "max_point_difference a b = max_point_difference b a"
  by (simp add: max_point_difference_def difference_def)

lemma max_point_difference_self [simp]: "max_point_difference a a = 0"
  by (simp add: max_point_difference_def difference_def)

lemma inner_block: "inner c a b \<Longrightarrow> a \<in> block c \<and> b \<in> block c"
  by (cases c) (auto simp: inner_def block_def)

lemma place_big_cell_in:
  assumes wf0: "wf w h data" and c: "PointChecker (w - 1) (h - 1) c"
  shows "\<exists>data'. place_big_cell c data = Inr data' \<and> wf w h data'
     \<and> cells_are w h data' (\<lambda>q. if q \<in> block c then EMPTY else elt (cells data) q)
     \<and> doors_are w h data' (\<lambda>a b. open_between data a b \<and> \<not> inner c a b)"
proof -
  obtain x y where xy: "c = (x, y)" by (cases c)
  from wf0 have cs: "shape (cells data) w h" and hs: "shape (hor_doors data) (w - 1) h"
    and vs: "shape (ver_doors data) w (h - 1)"
    by (simp_all add: wf_def)
  from c xy have p: "PointChecker w h (x, y)" "PointChecker w h (x + 1, y)"
    "PointChecker w h (x, y + 1)" "PointChecker w h (x + 1, y + 1)"
    and sl: "PointChecker (w - 1) h (x, y)" "PointChecker (w - 1) h (x, y + 1)"
    "PointChecker w (h - 1) (x, y)" "PointChecker w (h - 1) (x + 1, y)"
    by simp_all
  from nd_set_in [OF cs p(1), of EMPTY] obtain c1 where
    c1: "nd_set (cells data) (x, y) EMPTY = Inr c1" "shape c1 w h"
      "\<And>q. PointChecker w h q \<Longrightarrow> elt c1 q = (if q = (x, y) then EMPTY else elt (cells data) q)"
    by blast
  from nd_set_in [OF c1(2) p(2), of EMPTY] obtain c2 where
    c2: "nd_set c1 (x + 1, y) EMPTY = Inr c2" "shape c2 w h"
      "\<And>q. PointChecker w h q \<Longrightarrow> elt c2 q = (if q = (x + 1, y) then EMPTY else elt c1 q)"
    by blast
  from nd_set_in [OF c2(2) p(3), of EMPTY] obtain c3 where
    c3: "nd_set c2 (x, y + 1) EMPTY = Inr c3" "shape c3 w h"
      "\<And>q. PointChecker w h q \<Longrightarrow> elt c3 q = (if q = (x, y + 1) then EMPTY else elt c2 q)"
    by blast
  from nd_set_in [OF c3(2) p(4), of EMPTY] obtain c4 where
    c4: "nd_set c3 (x + 1, y + 1) EMPTY = Inr c4" "shape c4 w h"
      "\<And>q. PointChecker w h q \<Longrightarrow> elt c4 q = (if q = (x + 1, y + 1) then EMPTY else elt c3 q)"
    by blast
  from nd_set_in [OF hs sl(1), of False] obtain h1 where
    h1: "nd_set (hor_doors data) (x, y) False = Inr h1" "shape h1 (w - 1) h"
      "\<And>q. PointChecker (w - 1) h q \<Longrightarrow>
         elt h1 q = (if q = (x, y) then False else elt (hor_doors data) q)"
    by blast
  from nd_set_in [OF h1(2) sl(2), of False] obtain h2 where
    h2: "nd_set h1 (x, y + 1) False = Inr h2" "shape h2 (w - 1) h"
      "\<And>q. PointChecker (w - 1) h q \<Longrightarrow>
         elt h2 q = (if q = (x, y + 1) then False else elt h1 q)"
    by blast
  from nd_set_in [OF vs sl(3), of False] obtain v1 where
    v1: "nd_set (ver_doors data) (x, y) False = Inr v1" "shape v1 w (h - 1)"
      "\<And>q. PointChecker w (h - 1) q \<Longrightarrow>
         elt v1 q = (if q = (x, y) then False else elt (ver_doors data) q)"
    by blast
  from nd_set_in [OF v1(2) sl(4), of False] obtain v2 where
    v2: "nd_set v1 (x + 1, y) False = Inr v2" "shape v2 w (h - 1)"
      "\<And>q. PointChecker w (h - 1) q \<Longrightarrow>
         elt v2 q = (if q = (x + 1, y) then False else elt v1 q)"
    by blast
  define data' where "data' = data\<lparr>cells := c4, hor_doors := h2, ver_doors := v2\<rparr>"
  have run: "place_big_cell c data = Inr data'"
    by (simp add: place_big_cell_def xy c1(1) c2(1) c3(1) c4(1) h1(1) h2(1) v1(1) v2(1)
        data'_def)
  have wf': "wf w h data'"
    by (simp add: wf_def data'_def c4(2) h2(2) v2(2))
  have cells': "elt (cells data') q = (if q \<in> block c then EMPTY else elt (cells data) q)"
    if "PointChecker w h q" for q
    using c4(3) [OF that] c3(3) [OF that] c2(3) [OF that] c1(3) [OF that]
    by (auto simp: data'_def block_def xy)
  have doors': "open_between data' a b = (open_between data a b \<and> \<not> inner c a b)"
    if ab: "PointChecker w h a" "PointChecker w h b" for a b
  proof -
    let ?dA = "data\<lparr>hor_doors := h1\<rparr>"
    let ?dB = "?dA\<lparr>hor_doors := h2\<rparr>"
    let ?dC = "?dB\<lparr>ver_doors := v1\<rparr>"
    let ?dD = "?dC\<lparr>ver_doors := v2\<rparr>"
    define eA where "eA \<longleftrightarrow> (a = (x, y) \<and> b = (x + 1, y)) \<or> (a = (x + 1, y) \<and> b = (x, y))"
    define eB where
      "eB \<longleftrightarrow> (a = (x, y + 1) \<and> b = (x + 1, y + 1)) \<or> (a = (x + 1, y + 1) \<and> b = (x, y + 1))"
    define eC where "eC \<longleftrightarrow> (a = (x, y) \<and> b = (x, y + 1)) \<or> (a = (x, y + 1) \<and> b = (x, y))"
    define eD where
      "eD \<longleftrightarrow> (a = (x + 1, y) \<and> b = (x + 1, y + 1)) \<or> (a = (x + 1, y + 1) \<and> b = (x + 1, y))"
    have A: "open_between ?dA a b = (if eA then False else open_between data a b)"
      unfolding eA_def by (rule open_between_hor_upd [OF h1(3) ab])
    have B: "open_between ?dB a b = (if eB then False else open_between ?dA a b)"
      unfolding eB_def by (rule open_between_hor_upd [OF _ ab]) (simp add: h2(3))
    have C: "open_between ?dC a b = (if eC then False else open_between ?dB a b)"
      unfolding eC_def by (rule open_between_ver_upd [OF _ ab]) (simp add: v1(3))
    have D: "open_between ?dD a b = (if eD then False else open_between ?dC a b)"
      unfolding eD_def by (rule open_between_ver_upd [OF _ ab]) (simp add: v2(3))
    have "open_between data' a b = open_between ?dD a b"
      by (rule open_between_doors_only) (simp_all add: data'_def)
    also have "\<dots> = (open_between data a b \<and> \<not> eA \<and> \<not> eB \<and> \<not> eC \<and> \<not> eD)"
      unfolding A B C D by auto
    also have "(\<not> eA \<and> \<not> eB \<and> \<not> eC \<and> \<not> eD) = (\<not> inner c a b)"
      unfolding eA_def eB_def eC_def eD_def inner_def xy by simp
    finally show ?thesis .
  qed
  from run wf' cells' doors' show ?thesis
    unfolding cells_are_def doors_are_def by blast
qed

lemma covered_insert: "covered (insert c S) q \<longleftrightarrow> q \<in> block c \<or> covered S q"
  by (auto simp: covered_def)

lemma place_big_cells_inv:
  "merge_inv w h D big data \<Longrightarrow> set cands \<subseteq> {c. PointChecker (w - 1) (h - 1) c}
   \<Longrightarrow> (\<forall>a \<in> chosen w h big. \<forall>c \<in> set cands. 1 < max_point_difference c a)
   \<Longrightarrow> place_big_cells cands big data r = Inr (big', data', r')
   \<Longrightarrow> merge_inv w h D big' data' \<and> chosen w h big' \<subseteq> chosen w h big \<union> set cands"
proof (induction cands big data r rule: place_big_cells.induct)
  case (1 cands big data r)
  show ?case
  proof (cases "0 < length cands")
    case False
    with "1.prems"(4) have "big' = big" "data' = data"
      by (subst (asm) place_big_cells.simps; simp)+
    with "1.prems"(1) show ?thesis by simp
  next
    case True
    from "1.prems"(1) have wf0: "wf w h data" and sh: "shape big (w - 1) (h - 1)"
      and cl: "cells_are w h data
          (\<lambda>q. if covered (chosen w h big) q then EMPTY else elt (cells D) q)"
      and dr: "doors_are w h data
          (\<lambda>a b. open_between D a b \<and> \<not> (\<exists>c \<in> chosen w h big. inner c a b))"
      and sep: "\<And>a b. a \<in> chosen w h big \<Longrightarrow> b \<in> chosen w h big \<Longrightarrow> a \<noteq> b
                 \<Longrightarrow> 1 < max_point_difference a b"
      unfolding merge_inv_def by blast+
    from True "1.prems"(4) have run:
      "ebind (random_choice cands r) (\<lambda>picked.
        ebind (place_big_cell (fst picked) data) (\<lambda>data1.
        ebind (nd_set big (fst picked) True) (\<lambda>big1.
        place_big_cells
          (filter (\<lambda>cell. max_point_difference cell (fst picked) > 1) cands)
          big1 data1 (snd picked)))) = Inr (big', data', r')"
      by (subst (asm) place_big_cells.simps) simp
    then obtain picked where pk: "random_choice cands r = Inr picked"
      and run1: "ebind (place_big_cell (fst picked) data) (\<lambda>data1.
        ebind (nd_set big (fst picked) True) (\<lambda>big1.
        place_big_cells
          (filter (\<lambda>cell. max_point_difference cell (fst picked) > 1) cands)
          big1 data1 (snd picked))) = Inr (big', data', r')"
      unfolding ebind_Inr_iff by blast
    define c where "c = fst picked"
    from random_choice_Inr [OF pk] have c_in: "c \<in> set cands" by (simp add: c_def)
    with "1.prems"(2) have cpc: "PointChecker (w - 1) (h - 1) c" by blast
    from place_big_cell_in [OF wf0 cpc] obtain data1 where
      d1: "place_big_cell c data = Inr data1" "wf w h data1"
        "cells_are w h data1 (\<lambda>q. if q \<in> block c then EMPTY else elt (cells data) q)"
        "doors_are w h data1 (\<lambda>a b. open_between data a b \<and> \<not> inner c a b)"
      by blast
    from nd_set_in [OF sh cpc, of True] obtain big1 where
      b1: "nd_set big c True = Inr big1" "shape big1 (w - 1) (h - 1)"
        "\<And>q. PointChecker (w - 1) (h - 1) q \<Longrightarrow> elt big1 q = (if q = c then True else elt big q)"
      by blast
    have ch1: "chosen w h big1 = insert c (chosen w h big)"
      using b1(3) cpc by (auto simp: chosen_def)
    let ?cands' = "filter (\<lambda>cell. max_point_difference cell c > 1) cands"
    from run1 d1(1) b1(1) have run2:
      "place_big_cells ?cands' big1 data1 (snd picked) = Inr (big', data', r')"
      by (simp add: c_def)
    have cl1: "cells_are w h data1
          (\<lambda>q. if covered (chosen w h big1) q then EMPTY else elt (cells D) q)"
      unfolding cells_are_def
    proof (intro allI impI)
      fix q assume q: "PointChecker w h q"
      from cells_areD [OF d1(3) q] cells_areD [OF cl q]
      show "elt (cells data1) q = (if covered (chosen w h big1) q then EMPTY else elt (cells D) q)"
        by (simp add: ch1 covered_insert)
    qed
    have dr1: "doors_are w h data1
          (\<lambda>a b. open_between D a b \<and> \<not> (\<exists>c \<in> chosen w h big1. inner c a b))"
      unfolding doors_are_def
    proof (intro allI impI)
      fix a b assume "PointChecker w h a \<and> PointChecker w h b"
      then have ab: "PointChecker w h a" "PointChecker w h b" by simp_all
      from doors_areD [OF d1(4) ab] doors_areD [OF dr ab]
      show "open_between data1 a b =
          (open_between D a b \<and> \<not> (\<exists>c \<in> chosen w h big1. inner c a b))"
        by (auto simp: ch1)
    qed
    have sep1: "1 < max_point_difference a b"
      if "a \<in> chosen w h big1" "b \<in> chosen w h big1" "a \<noteq> b" for a b
    proof -
      from that ch1 consider "a \<in> chosen w h big" "b \<in> chosen w h big"
        | "a = c" "b \<in> chosen w h big" | "b = c" "a \<in> chosen w h big"
        by auto
      then show ?thesis
      proof cases
        case 1
        with sep that(3) show ?thesis by blast
      next
        case 2
        with "1.prems"(3) c_in show ?thesis by blast
      next
        case 3
        with "1.prems"(3) c_in have "1 < max_point_difference b a" by blast
        then show ?thesis by (simp add: max_point_difference_sym)
      qed
    qed
    have inv1: "merge_inv w h D big1 data1"
      unfolding merge_inv_def using d1(2) b1(2) cl1 dr1 sep1 by blast
    have sub1: "set ?cands' \<subseteq> {c. PointChecker (w - 1) (h - 1) c}"
      using "1.prems"(2) by auto
    have far1: "\<forall>a \<in> chosen w h big1. \<forall>c' \<in> set ?cands'. 1 < max_point_difference c' a"
      using "1.prems"(3) by (auto simp: ch1)
    from True pk d1(1) b1(1) have
      "0 < length cands" "random_choice cands r = Inr picked"
      "place_big_cell (fst picked) data = Inr data1" "nd_set big (fst picked) True = Inr big1"
      by (simp_all add: c_def)
    from "1.IH" [OF this inv1 [unfolded c_def] sub1 [unfolded c_def] far1 [unfolded c_def]
        run2 [unfolded c_def]]
    have "merge_inv w h D big' data'"
      and "chosen w h big' \<subseteq> chosen w h big1 \<union> set ?cands'"
      unfolding c_def by blast+
    with ch1 c_in show ?thesis by auto
  qed
qed

lemma occupied_mask:
  assumes cs: "shape (cells D2) w h" and o0: "shape occ0 w h"
  shows "\<exists>occ. fold_err (\<lambda>cell occ.
              ebind (nd_get (cells D2) cell) (\<lambda>v. nd_set occ cell (v = BODY)))
              (grid w h) occ0 = Inr occ
     \<and> shape occ w h \<and> (\<forall>q. PointChecker w h q \<longrightarrow> elt occ q = (elt (cells D2) q = BODY))"
proof -
  define I where "I pre occ \<longleftrightarrow> shape occ w h
     \<and> (\<forall>q. PointChecker w h q \<and> q \<in> set pre \<longrightarrow> elt occ q = (elt (cells D2) q = BODY))"
    for pre :: "point list" and occ
  have "\<exists>occ. fold_err (\<lambda>cell occ.
              ebind (nd_get (cells D2) cell) (\<lambda>v. nd_set occ cell (v = BODY)))
              (grid w h) occ0 = Inr occ \<and> I (grid w h) occ"
  proof (rule fold_err_prefix)
    show "I [] occ0" using o0 by (simp add: I_def)
  next
    fix cell occ pre assume cell: "cell \<in> set (grid w h)" and Io: "I pre occ"
    from cell have cin: "PointChecker w h cell" by simp
    from Io have so: "shape occ w h"
      and old: "\<And>q. PointChecker w h q \<Longrightarrow> q \<in> set pre
                  \<Longrightarrow> elt occ q = (elt (cells D2) q = BODY)"
      unfolding I_def by blast+
    from nd_set_in [OF so cin, of "elt (cells D2) cell = BODY"] obtain occ' where
      o': "nd_set occ cell (elt (cells D2) cell = BODY) = Inr occ'" "shape occ' w h"
        "\<And>q. PointChecker w h q \<Longrightarrow>
           elt occ' q = (if q = cell then elt (cells D2) cell = BODY else elt occ q)"
      by blast
    have "I (pre @ [cell]) occ'"
      unfolding I_def using o'(2) o'(3) old by auto
    with o'(1) nd_get_in [OF cs cin]
    show "\<exists>s'. ebind (nd_get (cells D2) cell) (\<lambda>v. nd_set occ cell (v = BODY)) = Inr s'
        \<and> I (pre @ [cell]) s'"
      by simp
  qed
  then show ?thesis unfolding I_def by auto
qed

lemma cell_cases: "c \<noteq> EMPTY \<Longrightarrow> c \<noteq> SPAWNER \<Longrightarrow> c = BODY"
  by (cases c) simp_all

lemma dead_end_inv_start:
  assumes "grow_inv w h e D []"
  shows "dead_end_inv w h D D"
proof -
  from assms have wf0: "wf w h D"
    and nsp: "\<And>p. PointChecker w h p \<Longrightarrow> elt (cells D) p \<noteq> SPAWNER"
    and d_ok: "\<And>a b. PointChecker w h a \<Longrightarrow> PointChecker w h b \<Longrightarrow> open_between D a b
           \<Longrightarrow> elt (cells D) a \<noteq> EMPTY"
    unfolding grow_inv_def list.set by blast+
  have "elt (cells D) a = BODY"
    if "PointChecker w h a" "PointChecker w h b" "open_between D a b" for a b
    using d_ok [OF that] nsp [OF that(1)] by (rule cell_cases)
  with wf0 show ?thesis unfolding dead_end_inv_def by blast
qed

lemma merge_inv_start:
  assumes wf0: "wf w h D1" and b0: "shape big0 (w - 1) (h - 1)"
    and f: "\<And>q. PointChecker (w - 1) (h - 1) q \<Longrightarrow> elt big0 q = False"
  shows "merge_inv w h D1 big0 D1 \<and> chosen w h big0 = {}"
proof -
  have ch: "chosen w h big0 = {}" using f by (auto simp: chosen_def)
  show ?thesis
    unfolding merge_inv_def ch using wf0 b0
    by (simp add: cells_are_def doors_are_def covered_def)
qed

lemma finish_post:
  assumes pre: "grow_inv w h e D []"
    and run: "finish w h D (PointChecker w h) chance r = Inr (occ, big, hor, ver, chests)"
  shows "\<exists>D1 D2. dead_end_inv w h D D1 \<and> merge_inv w h D1 big D2
     \<and> hor = hor_doors D2 \<and> ver = ver_doors D2 \<and> mask_of w h occ D2
     \<and> chosen w h big \<subseteq> {c. PointChecker (w - 1) (h - 1) c \<and> block_wired D1 c}
     \<and> leaves w h D chests"
proof -
  from pre have e: "PointChecker w h e" unfolding grow_inv_def by blast
  then have wh: "0 \<le> w - 1" "0 \<le> h - 1" "0 \<le> w" "0 \<le> h" by (cases e; simp)+
  note J0 = dead_end_inv_start [OF pre]
  let ?pass = "fold_err (\<lambda>cell st.
              case st of (chests, data', r') \<Rightarrow>
                ebind (process_as_if_dead_end cell data' (PointChecker w h) chance r') (\<lambda>res.
                case res of (ret, data'', r'') \<Rightarrow>
                  Inr (if ret = Some True then chests @ [cell] else chests, data'', r'')))
              (grid w h) ([], D, r)"
  from run obtain st1 where p1: "?pass = Inr st1"
    by (cases ?pass) (simp_all add: finish_def)
  obtain chests1 D1 r1 where st1: "st1 = (chests1, D1, r1)" by (cases st1)
  from dead_end_pass [OF J0 p1 [unfolded st1]]
  have J1: "dead_end_inv w h D D1" and lv: "leaves w h D chests1"
    unfolding leaves_def by blast+
  from J1 have wf1: "wf w h D1" unfolding dead_end_inv_def by blast
  from np_full_ok [OF wh(1,2), of False] obtain big0 where
    b0: "np_full (w - 1) (h - 1) False = Inr big0" "shape big0 (w - 1) (h - 1)"
      "\<And>q. PointChecker (w - 1) (h - 1) q \<Longrightarrow> elt big0 q = False"
    by blast
  define cands where "cands = filter (block_wired D1) (grid (w - 1) (h - 1))"
  have fc: "filter_err (\<lambda>cell. big_cell_filter cell D1) (grid (w - 1) (h - 1)) = Inr cands"
    unfolding cands_def
    by (rule filter_err_total) (simp add: big_cell_filter_in [OF wf1])
  let ?place = "place_big_cells cands big0 D1 r1"
  from run p1 st1 b0(1) fc obtain st2 where p2: "?place = Inr st2"
    by (cases ?place) (simp_all add: finish_def)
  obtain big1 D2 r2 where st2: "st2 = (big1, D2, r2)" by (cases st2)
  from merge_inv_start [OF wf1 b0(2,3)]
  have m0: "merge_inv w h D1 big0 D1" and ch0: "chosen w h big0 = {}" by blast+
  have "merge_inv w h D1 big1 D2 \<and> chosen w h big1 \<subseteq> chosen w h big0 \<union> set cands"
    by (rule place_big_cells_inv [OF m0 _ _ p2 [unfolded st2]])
      (auto simp: cands_def ch0)
  then have m2: "merge_inv w h D1 big1 D2"
    and ch2: "chosen w h big1 \<subseteq> {c. PointChecker (w - 1) (h - 1) c \<and> block_wired D1 c}"
    by (auto simp: ch0 cands_def)
  from m2 have wf2: "wf w h D2" unfolding merge_inv_def by blast
  then have cs2: "shape (cells D2) w h" by (simp add: wf_def)
  from np_full_ok [OF wh(3,4), of False] obtain occ0 where
    o0: "np_full w h False = Inr occ0" "shape occ0 w h"
    by blast
  from occupied_mask [OF cs2 o0(2)] obtain occ1 where
    o1: "fold_err (\<lambda>cell occ.
              ebind (nd_get (cells D2) cell) (\<lambda>v. nd_set occ cell (v = BODY)))
              (grid w h) occ0 = Inr occ1"
    and mk: "mask_of w h occ1 D2"
    unfolding mask_of_def by blast
  from run p1 st1 b0(1) fc p2 st2 o0(1) o1
  have "(occ1, big1, hor_doors D2, ver_doors D2, chests1) = (occ, big, hor, ver, chests)"
    by (simp add: finish_def)
  with J1 m2 mk ch2 lv show ?thesis by blast
qed

section \<open>The returned layout\<close>

lemma generate_post:
  assumes ord: "\<And>xs. set (ord xs) = set xs"
    and run: "generate ord fuel w h px py chance c r = Some (Inr (occ, big, hor, ver, chests))"
  shows "\<exists>D D1 D2. grow_inv w h (px, py) D [] \<and> dead_end_inv w h D D1
     \<and> merge_inv w h D1 big D2
     \<and> hor = hor_doors D2 \<and> ver = ver_doors D2 \<and> mask_of w h occ D2
     \<and> chosen w h big \<subseteq> {c. PointChecker (w - 1) (h - 1) c \<and> block_wired D1 c}
     \<and> leaves w h D chests"
proof -
  have valid: "0 < w \<and> 0 < h \<and> 0 \<le> px \<and> px < w \<and> 0 \<le> py \<and> py < h \<and> 0 < chance
      \<and> chance < 1 \<and> 0 \<le> c"
  proof (rule ccontr)
    assume "\<not> ?thesis"
    then have "w \<le> 0 \<or> h \<le> 0 \<or> \<not> (0 \<le> px \<and> px < w) \<or> \<not> (0 \<le> py \<and> py < h)
           \<or> \<not> (0 < chance \<and> chance < 1) \<or> c < 0"
      by auto
    then have "\<exists>msg. generate ord fuel w h px py chance c r = Some (Inl (ValueError msg))"
      by (auto simp: generate_def)
    with run show False by auto
  qed
  from generate_init [of w h px py chance c ord fuel r] valid obtain D0 where
    g: "generate ord fuel w h px py chance c r
            = grow ord fuel w h D0 (PointChecker w h) chance c [(px, py)] r"
    and inv: "grow_inv w h (px, py) D0 [(px, py)]"
    by blast
  from run g have "grow ord fuel w h D0 (PointChecker w h) chance c [(px, py)] r
      = Some (Inr (occ, big, hor, ver, chests))"
    by simp
  from grow_reaches_finish [OF ord inv this] obtain D r' where
    pre: "grow_inv w h (px, py) D []"
    and fin: "finish w h D (PointChecker w h) chance r' = Inr (occ, big, hor, ver, chests)"
    by blast
  from finish_post [OF pre fin] pre show ?thesis by blast
qed

lemma occupied_elt:
  "shape occ w h \<Longrightarrow> PointChecker w h q \<Longrightarrow> occupied occ q = elt occ q"
  by (simp add: occupied_def nd_get_in)

lemma block_corners: "q \<in> block c \<longleftrightarrow> c \<in> set (corners_of q)"
  by (cases c; cases q) (auto simp: block_def corners_of_def)

lemma in_big_cell_covered:
  assumes "shape big (w - 1) (h - 1)"
  shows "in_big_cell w h big q = covered (chosen w h big) q"
proof -
  have "PointChecker (w - 1) (h - 1) c \<and> nd_get big c = Inr True
      \<longleftrightarrow> c \<in> chosen w h big" for c
    using nd_get_in [OF assms, of c] by (auto simp: chosen_def)
  then show ?thesis
    unfolding in_big_cell_def covered_def list_ex_iff block_corners by blast
qed

lemma block_cells_body:
  assumes J: "dead_end_inv w h D D1" and c: "PointChecker (w - 1) (h - 1) c"
    and bw: "block_wired D1 c" and q: "q \<in> block c"
  shows "PointChecker w h q \<and> elt (cells D) q = BODY"
proof -
  obtain x y where xy: "c = (x, y)" by (cases c)
  from J have ok: "\<And>a b. PointChecker w h a \<Longrightarrow> PointChecker w h b \<Longrightarrow> open_between D1 a b
                 \<Longrightarrow> elt (cells D) a = BODY"
    unfolding dead_end_inv_def by blast
  from c xy have p: "PointChecker w h (x, y)" "PointChecker w h (x + 1, y)"
    "PointChecker w h (x, y + 1)" "PointChecker w h (x + 1, y + 1)"
    by simp_all
  from bw xy have o: "open_between D1 (x, y) (x + 1, y)"
    "open_between D1 (x, y + 1) (x + 1, y + 1)"
    unfolding block_wired_def by simp_all
  then have o': "open_between D1 (x + 1, y) (x, y)"
    "open_between D1 (x + 1, y + 1) (x, y + 1)"
    by (simp_all add: open_between_sym)
  note b = ok [OF p(1) p(2) o(1)] ok [OF p(2) p(1) o'(1)] ok [OF p(3) p(4) o(2)]
    ok [OF p(4) p(3) o'(2)]
  from q xy consider "q = (x, y)" | "q = (x + 1, y)" | "q = (x, y + 1)" | "q = (x + 1, y + 1)"
    by (auto simp: block_def)
  then show ?thesis
    by cases (use p b in simp_all)
qed

text \<open>What the returned arrays say about the cells before the big rooms were placed.\<close>

lemma layout_facts:
  assumes ord: "\<And>xs. set (ord xs) = set xs"
    and run: "generate ord fuel w h px py chance c r = Some (Inr (occ, big, hor, ver, chests))"
  shows "\<exists>D D1. grow_inv w h (px, py) D [] \<and> dead_end_inv w h D D1
     \<and> shape hor (w - 1) h \<and> shape ver w (h - 1) \<and> shape occ w h \<and> shape big (w - 1) (h - 1)
     \<and> (\<forall>q. PointChecker w h q \<longrightarrow> room w h occ big q = (elt (cells D) q = BODY))
     \<and> (\<forall>q. PointChecker w h q \<longrightarrow> occupied occ q
            = (elt (cells D) q = BODY \<and> \<not> in_big_cell w h big q))
     \<and> doors_are w h \<lparr>cells = [], hor_doors = hor, ver_doors = ver\<rparr>
          (\<lambda>a b. open_between D1 a b \<and> \<not> (\<exists>c \<in> chosen w h big. inner c a b))
     \<and> (\<forall>a \<in> chosen w h big. \<forall>b \<in> chosen w h big.
           a \<noteq> b \<longrightarrow> 1 < max_point_difference a b)
     \<and> leaves w h D chests"
proof -
  from generate_post [OF ord run] obtain D D1 D2 where
    pre: "grow_inv w h (px, py) D []" and J: "dead_end_inv w h D D1"
    and M: "merge_inv w h D1 big D2"
    and hv: "hor = hor_doors D2" "ver = ver_doors D2"
    and mk: "mask_of w h occ D2"
    and ch: "chosen w h big \<subseteq> {c. PointChecker (w - 1) (h - 1) c \<and> block_wired D1 c}"
    and lv: "leaves w h D chests"
    by blast
  from M have wf2: "wf w h D2" and sb: "shape big (w - 1) (h - 1)"
    and cl: "cells_are w h D2
          (\<lambda>q. if covered (chosen w h big) q then EMPTY else elt (cells D1) q)"
    and dr: "doors_are w h D2
          (\<lambda>a b. open_between D1 a b \<and> \<not> (\<exists>c \<in> chosen w h big. inner c a b))"
    and sep: "\<forall>a \<in> chosen w h big. \<forall>b \<in> chosen w h big.
           a \<noteq> b \<longrightarrow> 1 < max_point_difference a b"
    unfolding merge_inv_def by blast+
  from J have c1: "cells D1 = cells D" unfolding dead_end_inv_def by blast
  from mk have so: "shape occ w h"
    and occ: "\<And>q. PointChecker w h q \<Longrightarrow> elt occ q = (elt (cells D2) q = BODY)"
    unfolding mask_of_def by blast+
  from wf2 hv have sh: "shape hor (w - 1) h" "shape ver w (h - 1)" by (simp_all add: wf_def)
  have occ': "occupied occ q = (elt (cells D) q = BODY \<and> \<not> in_big_cell w h big q)"
    if q: "PointChecker w h q" for q
    using occupied_elt [OF so q] occ [OF q] cells_areD [OF cl q] c1
    by (simp add: in_big_cell_covered [OF sb])
  have cov: "elt (cells D) q = BODY" if "in_big_cell w h big q" for q
  proof -
    from that obtain c where "c \<in> chosen w h big" "q \<in> block c"
      unfolding in_big_cell_covered [OF sb] covered_def by blast
    with ch block_cells_body [OF J, of c q] show ?thesis by blast
  qed
  have rm: "room w h occ big q = (elt (cells D) q = BODY)" if q: "PointChecker w h q" for q
    unfolding room_def occ' [OF q] using cov by blast
  have dr': "doors_are w h \<lparr>cells = [], hor_doors = hor, ver_doors = ver\<rparr>
          (\<lambda>a b. open_between D1 a b \<and> \<not> (\<exists>c \<in> chosen w h big. inner c a b))"
    unfolding doors_are_def
  proof (intro allI impI)
    fix a b assume "PointChecker w h a \<and> PointChecker w h b"
    then have ab: "PointChecker w h a" "PointChecker w h b" by simp_all
    have "open_between \<lparr>cells = [], hor_doors = hor, ver_doors = ver\<rparr> a b = open_between D2 a b"
      by (rule open_between_doors_only) (simp_all add: hv)
    with doors_areD [OF dr ab]
    show "open_between \<lparr>cells = [], hor_doors = hor, ver_doors = ver\<rparr> a b =
        (open_between D1 a b \<and> \<not> (\<exists>c \<in> chosen w h big. inner c a b))"
      by simp
  qed
  from pre J sh so sb rm occ' dr' sep lv show ?thesis by blast
qed

lemma block_iff:
  "(px, py) \<in> block (x, y) \<longleftrightarrow> (px = x \<or> px = x + 1) \<and> (py = y \<or> py = y + 1)"
  by (auto simp: block_def)

lemma blocks_disjoint:
  assumes "1 < max_point_difference a b"
  shows "block a \<inter> block b = {}"
proof -
  obtain ax ay where a: "a = (ax, ay)" by (cases a)
  obtain bx "by" where b: "b = (bx, by)" by (cases b)
  from assms a b have far: "ax + 1 < bx \<or> bx + 1 < ax \<or> ay + 1 < by \<or> by + 1 < ay"
    by (auto simp: max_point_difference_def difference_def split: if_splits)
  have False if "q \<in> block a" "q \<in> block b" for q
  proof -
    obtain qx qy where q: "q = (qx, qy)" by (cases q)
    from that have "(qx = ax \<or> qx = ax + 1) \<and> (qy = ay \<or> qy = ay + 1)"
      "(qx = bx \<or> qx = bx + 1) \<and> (qy = by \<or> qy = by + 1)"
      unfolding a b q block_iff by simp_all
    with far show False by arith
  qed
  then show ?thesis by blast
qed

lemma door_open_out:
  assumes sh: "shape hor (w - 1) h" "shape ver w (h - 1)"
    and a: "PointChecker w h a" and b: "PointChecker w h b"
  shows "door_open hor ver a b
      = open_between \<lparr>cells = cs, hor_doors = hor, ver_doors = ver\<rparr> a b"
proof -
  obtain ax ay where A: "a = (ax, ay)" by (cases a)
  obtain bx "by" where B: "b = (bx, by)" by (cases b)
  have 1: "nd_get hor (ax, ay) = Inr True \<longleftrightarrow> elt hor (ax, ay)" if "bx = ax + 1"
    using nd_get_in [OF sh(1), of "(ax, ay)"] a b that A B by auto
  have 2: "nd_get hor (bx, ay) = Inr True \<longleftrightarrow> elt hor (bx, ay)" if "ax = bx + 1"
    using nd_get_in [OF sh(1), of "(bx, ay)"] a b that A B by auto
  have 3: "nd_get ver (ax, ay) = Inr True \<longleftrightarrow> elt ver (ax, ay)" if "by = ay + 1"
    using nd_get_in [OF sh(2), of "(ax, ay)"] a b that A B by auto
  have 4: "nd_get ver (ax, by) = Inr True \<longleftrightarrow> elt ver (ax, by)" if "ay = by + 1"
    using nd_get_in [OF sh(2), of "(ax, by)"] a b that A B by auto
  show ?thesis
    unfolding door_open_def open_between_def A B using 1 2 3 4 by auto
qed

lemma same_big_cell_chosen:
  assumes "shape big (w - 1) (h - 1)"
  shows "same_big_cell w h big a b \<longleftrightarrow> (\<exists>c \<in> chosen w h big. a \<in> block c \<and> b \<in> block c)"
proof -
  have 1: "PointChecker (w - 1) (h - 1) c \<and> nd_get big c = Inr True
      \<longleftrightarrow> c \<in> chosen w h big" for c
    using nd_get_in [OF assms, of c] by (auto simp: chosen_def)
  have 2: "b \<in> set (corners_of (fst c + 1, snd c + 1)) \<longleftrightarrow> b \<in> block c" for c
    by (cases c) (auto simp: corners_of_def block_def)
  show ?thesis
    unfolding same_big_cell_def list_ex_iff 2 block_corners [of a]
    using 1 by blast
qed

section \<open>Concrete runs and helpers for the claims\<close>

lemma id_enumerates: "set (id xs) = set xs"
  by simp

text \<open>Three runs, evaluated with the code equations.\<close>

lemma run_3x2:
  "generate id 6 3 2 0 0 (35 / 100) 3 (constant_rng 0) = Some (Inr
     ([[False, False], [False, False], [True, True]], [[True], [False]],
      [[False, False], [True, True]], [[False], [False], [True]], []))"
  by code_simp

lemma run_4x2_middle:
  "generate id 8 4 2 0 0 (35 / 100) 3 (constant_rng 1) = Some (Inr
     ([[True, True], [False, False], [False, False], [True, True]],
      [[False], [True], [False]],
      [[True, True], [False, False], [True, True]],
      [[True], [False], [False], [True]], []))"
  by code_simp

lemma run_3x2_corner:
  "generate id 6 3 2 2 0 (35 / 100) 1 (list_rng [0, 1]) = Some (Inr
     ([[False, False], [False, False], [True, False]], [[True], [False]],
      [[False, False], [True, False]], [[False], [False], [False]], [(2, 0)]))"
  by code_simp


lemma closed_under_rtrancl:
  "(p, q) \<in> R\<^sup>* \<Longrightarrow> p \<in> A \<Longrightarrow> (\<And>a b. (a, b) \<in> R \<Longrightarrow> a \<in> A \<Longrightarrow> b \<in> A) \<Longrightarrow> q \<in> A"
  by (induction rule: rtrancl_induct) auto



section \<open>Independence of the iteration order of the vacancy set\<close>

lemma array_ext:
  assumes a: "shape a n m" and b: "shape b n m"
    and eq: "\<And>q. PointChecker n m q \<Longrightarrow> elt a q = elt b q"
  shows "a = b"
proof (rule nth_equalityI)
  from a b show "length a = length b" by (simp add: shape_def)
next
  fix i assume i: "i < length a"
  with a b have ib: "i < length b" and lens: "int (length (a ! i)) = m" "int (length (b ! i)) = m"
    by (auto simp: shape_def)
  show "a ! i = b ! i"
  proof (rule nth_equalityI)
    from lens show "length (a ! i) = length (b ! i)" by simp
  next
    fix j assume j: "j < length (a ! i)"
    from i j a lens have "PointChecker n m (int i, int j)" by (auto simp: shape_def)
    from eq [OF this] show "a ! i ! j = b ! i ! j" by (simp add: elt_def)
  qed
qed

lemma doors_ext:
  assumes w1: "wf w h d1" and w2: "wf w h d2"
    and eq: "\<And>a b. PointChecker w h a \<Longrightarrow> PointChecker w h b
               \<Longrightarrow> open_between d1 a b = open_between d2 a b"
  shows "hor_doors d1 = hor_doors d2 \<and> ver_doors d1 = ver_doors d2"
proof
  show "hor_doors d1 = hor_doors d2"
  proof (rule array_ext [of _ "w - 1" h])
    fix q assume q: "PointChecker (w - 1) h q"
    obtain x y where xy: "q = (x, y)" by (cases q)
    from q xy have "PointChecker w h (x, y)" "PointChecker w h (x + 1, y)" by simp_all
    from eq [OF this] show "elt (hor_doors d1) q = elt (hor_doors d2) q" by (simp add: xy)
  qed (use w1 w2 in \<open>simp_all add: wf_def\<close>)
  show "ver_doors d1 = ver_doors d2"
  proof (rule array_ext [of _ w "h - 1"])
    fix q assume q: "PointChecker w (h - 1) q"
    obtain x y where xy: "q = (x, y)" by (cases q)
    from q xy have "PointChecker w h (x, y)" "PointChecker w h (x, y + 1)" by simp_all
    from eq [OF this] show "elt (ver_doors d1) q = elt (ver_doors d2) q" by (simp add: xy)
  qed (use w1 w2 in \<open>simp_all add: wf_def\<close>)
qed

lemma set_cells_set_eq:
  assumes wf0: "wf w h data" and ps: "\<forall>p \<in> set ps1. PointChecker w h p"
    and eq: "set ps1 = set ps2"
  shows "set_cells t ps1 data = set_cells t ps2 data"
proof -
  from ps eq have ps2: "\<forall>p \<in> set ps2. PointChecker w h p" by simp
  from set_cells_ok [OF wf0 ps, of t] obtain d1 where
    d1: "set_cells t ps1 data = Inr d1" "wf w h d1"
      "hor_doors d1 = hor_doors data" "ver_doors d1 = ver_doors data"
      "cells_are w h d1 (\<lambda>q. if q \<in> set ps1 then t else elt (cells data) q)"
    by blast
  from set_cells_ok [OF wf0 ps2, of t] obtain d2 where
    d2: "set_cells t ps2 data = Inr d2" "wf w h d2"
      "hor_doors d2 = hor_doors data" "ver_doors d2 = ver_doors data"
      "cells_are w h d2 (\<lambda>q. if q \<in> set ps2 then t else elt (cells data) q)"
    by blast
  have "cells d1 = cells d2"
  proof (rule array_ext [of _ w h])
    fix q assume "PointChecker w h q"
    from cells_areD [OF d1(5) this] cells_areD [OF d2(5) this] eq
    show "elt (cells d1) q = elt (cells d2) q" by simp
  qed (use d1(2) d2(2) in \<open>simp_all add: wf_def\<close>)
  with d1(3,4) d2(3,4) have "d1 = d2" by simp
  with d1(1) d2(1) show ?thesis by simp
qed

lemma wires_set_eq:
  assumes wf0: "wf w h data" and hs: "\<forall>p \<in> set hs1. PointChecker w h p"
    and eq: "set hs1 = set hs2"
  shows "fold_err (\<lambda>head d. wire head d (PointChecker w h)) hs1 data
       = fold_err (\<lambda>head d. wire head d (PointChecker w h)) hs2 data"
proof -
  from hs eq have hs2: "\<forall>p \<in> set hs2. PointChecker w h p" by simp
  define R where "R S a b \<longleftrightarrow> open_between data a b
              \<or> (a \<in> S \<and> (\<exists>d. b = step a d) \<and> elt (cells data) b = SPAWNER)
              \<or> (b \<in> S \<and> (\<exists>d. a = step b d) \<and> elt (cells data) a = SPAWNER)"
    for S a b
  from wires_ok [OF wf0 hs] obtain d1 where
    d1: "fold_err (\<lambda>head d. wire head d (PointChecker w h)) hs1 data = Inr d1"
      "wf w h d1" "cells d1 = cells data" "doors_are w h d1 (R (set hs1))"
    unfolding R_def by blast
  from wires_ok [OF wf0 hs2] obtain d2 where
    d2: "fold_err (\<lambda>head d. wire head d (PointChecker w h)) hs2 data = Inr d2"
      "wf w h d2" "cells d2 = cells data" "doors_are w h d2 (R (set hs2))"
    unfolding R_def by blast
  have "hor_doors d1 = hor_doors d2 \<and> ver_doors d1 = ver_doors d2"
  proof (rule doors_ext [OF d1(2) d2(2)])
    fix a b assume ab: "PointChecker w h a" "PointChecker w h b"
    from doors_areD [OF d1(4) ab] doors_areD [OF d2(4) ab] eq
    show "open_between d1 a b = open_between d2 a b" by simp
  qed
  with d1(3) d2(3) have "d1 = d2" by simp
  with d1(1) d2(1) show ?thesis by simp
qed

lemma grow_inv_set_eq:
  "set sp1 = set sp2 \<Longrightarrow> grow_inv w h e data sp1 = grow_inv w h e data sp2"
  unfolding grow_inv_def by simp

lemma sort_set_eq:
  fixes xs ys :: "point list"
  assumes "distinct xs" "distinct ys" "set xs = set ys"
  shows "sort xs = sort ys \<and> length xs = length ys"
proof -
  have "sort xs = sort ys"
    by (rule sorted_distinct_set_unique) (use assms in simp_all)
  moreover from assms have "length xs = length ys"
    by (metis distinct_card)
  ultimately show ?thesis by simp
qed

lemma grow_order_independent:
  assumes o1: "\<And>xs. set (ord1 xs) = set xs" and o2: "\<And>xs. set (ord2 xs) = set xs"
  shows "grow_inv w h e data sp1 \<Longrightarrow> set sp1 = set sp2
    \<Longrightarrow> grow ord1 fuel w h data (PointChecker w h) chance c sp1 r
      = grow ord2 fuel w h data (PointChecker w h) chance c sp2 r"
proof (induction fuel arbitrary: data sp1 sp2 r)
  case 0
  show ?case by simp
next
  case (Suc fuel)
  note inv1 = Suc.prems(1) and eq = Suc.prems(2)
  from inv1 have wf0: "wf w h data" and sp_in: "\<forall>p \<in> set sp1. PointChecker w h p"
    unfolding grow_inv_def by blast+
  from fill_vacancies_in [OF wf0, of sp1] obtain vs1 where
    vs1: "fill_vacancies data (PointChecker w h) sp1 = Inr vs1" "distinct vs1"
    and set1: "set vs1 = {q. PointChecker w h q \<and> elt (cells data) q = EMPTY
                    \<and> (\<exists>s \<in> set sp1. \<exists>d. q = step s d)}"
    by blast
  from fill_vacancies_in [OF wf0, of sp2] obtain vs2 where
    vs2: "fill_vacancies data (PointChecker w h) sp2 = Inr vs2" "distinct vs2"
    and set2: "set vs2 = {q. PointChecker w h q \<and> elt (cells data) q = EMPTY
                    \<and> (\<exists>s \<in> set sp2. \<exists>d. q = step s d)}"
    by blast
  from set1 set2 eq have seteq: "set vs1 = set vs2" by simp
  from sort_set_eq [OF vs1(2) vs2(2) seteq]
  have srt: "sort vs1 = sort vs2" and len: "length vs1 = length vs2" by simp_all
  have exit: "set_cells BODY sp1 data = set_cells BODY sp2 data"
    by (rule set_cells_set_eq [OF wf0 sp_in eq])
  show ?case
  proof (cases "length vs1 = 0")
    case True
    with len exit show ?thesis by (simp add: vs1(1) vs2(1))
  next
    case False
    let ?pick1 = "if int (length vs1) > c then random_sample (sort vs1) c r
                  else Inr (ord1 vs1, r)"
    let ?pick2 = "if int (length vs2) > c then random_sample (sort vs2) c r
                  else Inr (ord2 vs2, r)"
    show ?thesis
    proof (cases ?pick1)
      case (Inl err)
      then have "?pick2 = Inl err" using srt len by (simp split: if_splits)
      moreover from False len have "vs1 \<noteq> []" "vs2 \<noteq> []" by auto
      ultimately show ?thesis using Inl by (simp add: vs1(1) vs2(1))
    next
      case (Inr picked)
      obtain hs1 r1 where picked: "picked = (hs1, r1)" by (cases picked)
      from Inr picked have pk1: "?pick1 = Inr (hs1, r1)" by simp
      define hs2 where "hs2 = (if int (length vs1) > c then hs1 else ord2 vs2)"
      from pk1 have pk2: "?pick2 = Inr (hs2, r1)"
        using srt len by (simp add: hs2_def split: if_splits)
      from pk1 have heq: "set hs1 = set hs2"
        using o1 [of vs1] o2 [of vs2] seteq by (auto simp: hs2_def split: if_splits)
      from heads_in_vacancies [OF o1 pk1] set1
      have sub: "set hs1 \<subseteq> {q. PointChecker w h q \<and> elt (cells data) q = EMPTY
                    \<and> (\<exists>s \<in> set sp1. \<exists>d. q = step s d)}"
        by simp
      then have h_in: "\<forall>p \<in> set hs1. PointChecker w h p" by blast
      from grow_step [OF inv1 sub] obtain data1 data2 data3 where
        st: "fold_err (\<lambda>head d. wire head d (PointChecker w h)) hs1 data = Inr data1"
          "set_cells BODY sp1 data1 = Inr data2"
          "set_cells SPAWNER hs1 data2 = Inr data3"
          "grow_inv w h e data3 hs1"
        by blast
      from wires_in [OF wf0 h_in] st(1) have wf1: "wf w h data1" by auto
      from set_cells_ok [OF wf1 sp_in, of BODY] st(2) have wf2: "wf w h data2" by auto
      have st2: "fold_err (\<lambda>head d. wire head d (PointChecker w h)) hs2 data = Inr data1"
        "set_cells BODY sp2 data1 = Inr data2"
        "set_cells SPAWNER hs2 data2 = Inr data3"
        using st(1) wires_set_eq [OF wf0 h_in heq]
          st(2) set_cells_set_eq [OF wf1 sp_in eq, of BODY]
          st(3) set_cells_set_eq [OF wf2 h_in heq, of SPAWNER]
        by simp_all
      from Suc.IH [OF st(4) heq]
      have "grow ord1 fuel w h data3 (PointChecker w h) chance c hs1 r1
          = grow ord2 fuel w h data3 (PointChecker w h) chance c hs2 r1" .
      moreover from False len have "vs1 \<noteq> []" "vs2 \<noteq> []" by auto
      ultimately show ?thesis using pk1 pk2
        by (simp add: vs1(1) vs2(1) st st2)
    qed
  qed
qed

section \<open>Parameter validation\<close>

text \<open>
  C6. For every invalid input (\<open>w \<le> 0\<close>, \<open>h \<le> 0\<close>, \<open>px\<close> outside \<open>[0, w)\<close>, \<open>py\<close> outside
  \<open>[0, h)\<close>, \<open>chance\<close> outside the open interval \<open>(0, 1)\<close>, or \<open>c < 0\<close>), \<open>generate\<close> raises a
  ValueError whose message names the first violated precondition, in the order of the
  checks. It does so whatever the fuel and the generator are, the loop being never entered,
  and no layout is returned.
\<close>

theorem generate_rejects_invalid:
  assumes "w \<le> 0 \<or> h \<le> 0 \<or> \<not> (0 \<le> px \<and> px < w) \<or> \<not> (0 \<le> py \<and> py < h)
           \<or> \<not> (0 < chance \<and> chance < 1) \<or> c < 0"
  shows "generate ord fuel w h px py chance c r =
     Some (Inl (ValueError
       (if w \<le> 0 then ''w must be positive''
        else if h \<le> 0 then ''h must be positive''
        else if \<not> (0 \<le> px \<and> px < w) then ''0 <= px < w must be True''
        else if \<not> (0 \<le> py \<and> py < h) then ''0 <= py < h must be True''
        else if \<not> (0 < chance \<and> chance < 1) then ''0.0 < chance < 1.0 must be True''
        else ''c can not be negative'')))"
  using assms by (auto simp: generate_def)

text \<open>
  The four calls of the specification: \<open>generate(0, 5, 0, 0)\<close>, \<open>generate(5, 5, 5, 0)\<close>,
  \<open>generate(5, 5, 0, 0, chance=1.0)\<close> and \<open>generate(5, 5, 0, 0, c=-1)\<close>.
\<close>

theorem generate_rejects_invalid_witness:
  "generate id 0 0 5 0 0 (35 / 100) 3 (constant_rng 0)
     = Some (Inl (ValueError ''w must be positive''))
   \<and> generate id 0 5 5 5 0 (35 / 100) 3 (constant_rng 0)
     = Some (Inl (ValueError ''0 <= px < w must be True''))
   \<and> generate id 0 5 5 0 0 1 3 (constant_rng 0)
     = Some (Inl (ValueError ''0.0 < chance < 1.0 must be True''))
   \<and> generate id 0 5 5 0 0 (35 / 100) (- 1) (constant_rng 0)
     = Some (Inl (ValueError ''c can not be negative''))"
  using generate_rejects_invalid [of 0 5 0 0 "35 / 100" 3 id 0 "constant_rng 0"]
    generate_rejects_invalid [of 5 5 5 0 "35 / 100" 3 id 0 "constant_rng 0"]
    generate_rejects_invalid [of 5 5 0 0 1 3 id 0 "constant_rng 0"]
    generate_rejects_invalid [of 5 5 0 0 "35 / 100" "- 1" id 0 "constant_rng 0"]
  by simp

section \<open>The cell without a neighbor\<close>

text \<open>
  C1. \<open>generate(1, 1, 0, 0)\<close> with the default \<open>chance\<close> and \<open>c\<close> does not return a layout:
  the single cell is a body cell with no body neighbor, \<open>dirs\<close> is empty and \<open>first\<close> is
  still \<open>None\<close> when \<open>dirs.remove(first)\<close> runs, which raises ValueError. This holds for
  every state of the generator and every positive fuel.
\<close>

theorem generate_1x1_raises:
  "generate ord (Suc fuel) 1 1 0 0 (35 / 100) 3 r
     = Some (Inl (ValueError ''list.remove(x): x not in list''))"
  by (simp add: gen_unfold)

text \<open>
  C2. A valid input on which \<open>generate\<close> raises after validation: \<open>generate(2, 1, 0, 0, c=0)\<close>.
  No head is drawn, the epicenter becomes the only body cell, and the dead-end pass raises
  the same ValueError as on the \<open>1 \<times> 1\<close> grid.
\<close>

theorem generate_c0_raises:
  "generate ord (Suc (Suc fuel)) 2 1 0 0 (35 / 100) 0 r
     = Some (Inl (ValueError ''list.remove(x): x not in list''))"
  by (simp add: gen_unfold)

section \<open>Termination of the growth loop\<close>

text \<open>
  C9. For \<open>w \<ge> 1\<close>, \<open>h \<ge> 1\<close>, \<open>c \<ge> 1\<close>, a valid epicenter and a valid \<open>chance\<close>, the loop of
  \<open>generate\<close> is left after at most \<open>w * h\<close> entries into its body: with \<open>w * h\<close> units
  of fuel, one per entry, the fuel is never spent. Each entry that does not leave the loop
  turns at least one empty cell into a spawner (\<open>grow_step\<close>), and \<open>w * h - 1\<close> cells are
  empty at the start. The iteration order \<open>ord\<close> of the vacancy set is any enumeration of
  its elements.
\<close>

theorem growth_within_area:
  assumes ord: "\<And>xs. set (ord xs) = set xs"
    and valid: "1 \<le> w" "1 \<le> h" "0 \<le> px" "px < w" "0 \<le> py" "py < h"
      "0 < chance" "chance < 1" "1 \<le> c"
    and fuel: "nat (w * h) \<le> fuel"
  shows "generate ord fuel w h px py chance c r \<noteq> None"
proof -
  from generate_init [of w h px py chance c ord fuel r] valid obtain data where
    g: "generate ord fuel w h px py chance c r
            = grow ord fuel w h data (PointChecker w h) chance c [(px, py)] r"
    and inv: "grow_inv w h (px, py) data [(px, py)]"
    and em: "empties w h data = {p. PointChecker w h p} - {(px, py)}"
    by auto
  from valid have "(px, py) \<in> {p. PointChecker w h p}" by simp
  then have "card (empties w h data) = nat w * nat h - 1"
    unfolding em by (simp add: card_grid_points)
  moreover from valid have "nat (w * h) = nat w * nat h" by (simp add: nat_mult_distrib)
  moreover from valid have "0 < nat w * nat h" by simp
  ultimately have "card (empties w h data) < fuel" using fuel by linarith
  from grow_terminates [OF ord valid(9) inv this] g show ?thesis by simp
qed

text \<open>On the \<open>3 \<times> 2\<close> grid, six units of fuel are enough.\<close>

theorem growth_within_area_witness:
  "generate id 6 3 2 0 0 (35 / 100) 3 (constant_rng 0) \<noteq> None"
  using growth_within_area [of id 3 2 0 0 "35 / 100" 3 6 "constant_rng 0"]
  by simp

section \<open>Doors, rooms and big rooms of the returned layout\<close>

text \<open>
  In the theorems of this section, \<open>ord\<close> is the iteration order of the vacancy set, any
  enumeration of its elements, and the layout is what \<open>generate\<close> returns on success.
\<close>

text \<open>
  C7. In the returned big-cell mask, two distinct true entries differ by more than one in
  some coordinate (their Chebyshev distance, \<open>_max_point_difference\<close>, exceeds 1);
  consequently the two \<open>2 \<times> 2\<close> blocks they mark share no cell.
\<close>

theorem big_cells_apart:
  assumes ord: "\<And>xs. set (ord xs) = set xs"
    and run: "generate ord fuel w h px py chance c r = Some (Inr (occ, big, hor, ver, chests))"
    and a: "PointChecker (w - 1) (h - 1) a" "nd_get big a = Inr True"
    and b: "PointChecker (w - 1) (h - 1) b" "nd_get big b = Inr True"
    and ab: "a \<noteq> b"
  shows "1 < max_point_difference a b \<and> block a \<inter> block b = {}"
proof -
  from layout_facts [OF ord run] have sb: "shape big (w - 1) (h - 1)"
    and sep: "\<forall>a \<in> chosen w h big. \<forall>b \<in> chosen w h big.
           a \<noteq> b \<longrightarrow> 1 < max_point_difference a b"
    by blast+
  from a nd_get_in [OF sb a(1)] have "a \<in> chosen w h big" by (simp add: chosen_def)
  moreover from b nd_get_in [OF sb b(1)] have "b \<in> chosen w h big" by (simp add: chosen_def)
  ultimately have "1 < max_point_difference a b" using sep ab by blast
  with blocks_disjoint show ?thesis by blast
qed

text \<open>
  On the \<open>4 \<times> 2\<close> grid with every draw \<open>0\<close>, two big cells are placed, at \<open>(0, 0)\<close> and
  \<open>(2, 0)\<close>.
\<close>

theorem big_cells_apart_witness:
  "generate id 8 4 2 0 0 (35 / 100) 3 (constant_rng 0) = Some (Inr
     ([[False, False], [False, False], [False, False], [False, False]],
      [[True], [False], [True]],
      [[False, False], [True, True], [False, False]],
      [[False], [False], [False], [False]], []))
   \<and> 1 < max_point_difference (0, 0) (2, 0) \<and> block (0, 0) \<inter> block (2, 0) = {}"
proof -
  have run: "generate id 8 4 2 0 0 (35 / 100) 3 (constant_rng 0) = Some (Inr
     ([[False, False], [False, False], [False, False], [False, False]],
      [[True], [False], [True]],
      [[False, False], [True, True], [False, False]],
      [[False], [False], [False], [False]], []))"
    by code_simp
  have a: "PointChecker (4 - 1) (2 - 1) (0, 0)" "nd_get [[True], [False], [True]] (0, 0) = Inr True"
    and b: "PointChecker (4 - 1) (2 - 1) (2, 0)" "nd_get [[True], [False], [True]] (2, 0) = Inr True"
    and ab: "((0, 0) :: point) \<noteq> (2, 0)"
    by (simp_all add: nd_get_def np_index_def)
  from big_cells_apart [OF id_enumerates run a b ab] run show ?thesis by simp
qed

text \<open>
  C3 as stated fails. On the \<open>3 \<times> 2\<close> grid with epicenter \<open>(0, 0)\<close>, \<open>c = 3\<close> and every draw
  \<open>0\<close>, the block at \<open>(0, 0)\<close> becomes a big room: its four cells leave the occupied mask,
  while the door between \<open>(1, 0)\<close> and \<open>(2, 0)\<close> (slot \<open>(1, 0)\<close> of the horizontal array)
  stays open. \<open>_place_big_cell\<close> closes the four doors inside the block only.
\<close>

theorem door_to_unoccupied_cell:
  "generate id 6 3 2 0 0 (35 / 100) 3 (constant_rng 0) = Some (Inr
     ([[False, False], [False, False], [True, True]], [[True], [False]],
      [[False, False], [True, True]], [[False], [False], [True]], []))
   \<and> nd_get [[False, False], [True, True]] (1, 0) = Inr True
   \<and> nd_get [[False, False], [False, False], [True, True]] (1, 0) = Inr False"
  using run_3x2 by (simp add: nd_get_def np_index_def)

text \<open>
  C3, amended. Every open door of the returned arrays separates two cells each of which
  is true in the occupied mask or is one of the four cells of a block marked in the
  big-cell mask.
\<close>

theorem open_doors_join_rooms:
  assumes ord: "\<And>xs. set (ord xs) = set xs"
    and run: "generate ord fuel w h px py chance c r = Some (Inr (occ, big, hor, ver, chests))"
  shows "(PointChecker (w - 1) h (x, y) \<and> nd_get hor (x, y) = Inr True
          \<longrightarrow> room w h occ big (x, y) \<and> room w h occ big (x + 1, y))
       \<and> (PointChecker w (h - 1) (x, y) \<and> nd_get ver (x, y) = Inr True
          \<longrightarrow> room w h occ big (x, y) \<and> room w h occ big (x, y + 1))"
proof -
  from layout_facts [OF ord run] obtain D D1 where
    J: "dead_end_inv w h D D1"
    and sh: "shape hor (w - 1) h" "shape ver w (h - 1)"
    and rm: "\<And>q. PointChecker w h q \<Longrightarrow> room w h occ big q = (elt (cells D) q = BODY)"
    and dr: "doors_are w h \<lparr>cells = [], hor_doors = hor, ver_doors = ver\<rparr>
          (\<lambda>a b. open_between D1 a b \<and> \<not> (\<exists>c \<in> chosen w h big. inner c a b))"
    by blast
  let ?out = "\<lparr>cells = [], hor_doors = hor, ver_doors = ver\<rparr>"
  from J have ok: "\<And>a b. PointChecker w h a \<Longrightarrow> PointChecker w h b \<Longrightarrow> open_between D1 a b
                 \<Longrightarrow> elt (cells D) a = BODY"
    unfolding dead_end_inv_def by blast
  have ends: "room w h occ big a \<and> room w h occ big b"
    if ab: "PointChecker w h a" "PointChecker w h b" and o: "open_between ?out a b" for a b
  proof -
    from doors_areD [OF dr ab] o have o1: "open_between D1 a b" by simp
    then have o2: "open_between D1 b a" by (simp add: open_between_sym)
    from ok [OF ab o1] ok [OF ab(2,1) o2] rm [OF ab(1)] rm [OF ab(2)] show ?thesis by simp
  qed
  have H: "room w h occ big (x, y) \<and> room w h occ big (x + 1, y)"
    if s: "PointChecker (w - 1) h (x, y)" and t: "nd_get hor (x, y) = Inr True"
  proof -
    from s have ab: "PointChecker w h (x, y)" "PointChecker w h (x + 1, y)" by simp_all
    from t nd_get_in [OF sh(1) s] have "open_between ?out (x, y) (x + 1, y)" by simp
    from ends [OF ab this] show ?thesis .
  qed
  have V: "room w h occ big (x, y) \<and> room w h occ big (x, y + 1)"
    if s: "PointChecker w (h - 1) (x, y)" and t: "nd_get ver (x, y) = Inr True"
  proof -
    from s have ab: "PointChecker w h (x, y)" "PointChecker w h (x, y + 1)" by simp_all
    from t nd_get_in [OF sh(2) s] have "open_between ?out (x, y) (x, y + 1)" by simp
    from ends [OF ab this] show ?thesis .
  qed
  from H V show ?thesis by blast
qed

text \<open>The same run: the door at slot \<open>(1, 0)\<close> joins a big-room cell and an occupied cell.\<close>

theorem open_doors_join_rooms_witness:
  "generate id 6 3 2 0 0 (35 / 100) 3 (constant_rng 0) = Some (Inr
     ([[False, False], [False, False], [True, True]], [[True], [False]],
      [[False, False], [True, True]], [[False], [False], [True]], []))
   \<and> nd_get [[False, False], [True, True]] (1, 0) = Inr True
   \<and> room 3 2 [[False, False], [False, False], [True, True]] [[True], [False]] (1, 0)
   \<and> room 3 2 [[False, False], [False, False], [True, True]] [[True], [False]] (2, 0)"
proof -
  have d: "PointChecker (3 - 1) 2 (1, 0) \<and> nd_get [[False, False], [True, True]] (1, 0) = Inr True"
    by (simp add: nd_get_def np_index_def)
  from open_doors_join_rooms [OF id_enumerates run_3x2, of 1 0] d run_3x2
  show ?thesis by simp
qed

text \<open>
  C5 as stated fails. On the \<open>3 \<times> 2\<close> grid with epicenter \<open>(2, 0)\<close>, \<open>c = 1\<close> and the draws
  \<open>0, 1, 0, 0, \<dots>\<close>, the chest list is \<open>[(2, 0)]\<close>; the only body neighbor of \<open>(2, 0)\<close> is
  \<open>(1, 0)\<close>, which the big room at \<open>(0, 0)\<close> absorbs afterwards, so that in the returned
  mask the chest has no occupied neighbor. The chests are listed before the big rooms
  are placed, as the docstring of \<open>_finish\<close> orders the steps.
\<close>

theorem chest_without_occupied_neighbor:
  "generate id 6 3 2 2 0 (35 / 100) 1 (list_rng [0, 1]) = Some (Inr
     ([[False, False], [False, False], [True, False]], [[True], [False]],
      [[False, False], [True, False]], [[False], [False], [False]], [(2, 0)]))
   \<and> filter (occupied [[False, False], [False, False], [True, False]])
        (get_nbr_points (2, 0) (PointChecker 3 2)) = []"
  using run_3x2_corner
  by (simp add: get_nbr_points_def occupied_def nd_get_def np_index_def)

text \<open>
  C5, amended. Every point of the returned chest list has exactly one neighbor in the
  grid that is true in the occupied mask or is a cell of a marked big-cell block.
\<close>

theorem chest_has_one_room_neighbor:
  assumes ord: "\<And>xs. set (ord xs) = set xs"
    and run: "generate ord fuel w h px py chance c r = Some (Inr (occ, big, hor, ver, chests))"
    and ch: "ch \<in> set chests"
  shows "length (filter (room w h occ big) (get_nbr_points ch (PointChecker w h))) = 1"
proof -
  from layout_facts [OF ord run] obtain D where
    rm: "\<And>q. PointChecker w h q \<Longrightarrow> room w h occ big q = (elt (cells D) q = BODY)"
    and lv: "leaves w h D chests"
    by blast
  from lv ch have one: "length (body_dirs w h D ch) = 1" unfolding leaves_def by blast
  have "filter (room w h occ big) (get_nbr_points ch (PointChecker w h))
      = map (step ch) (body_dirs w h D ch)"
    unfolding get_nbr_points_step body_dirs_def filter_filter filter_map comp_def
    by (rule arg_cong [where f = "map (step ch)"], rule filter_cong [OF refl])
      (use rm in blast)
  with one show ?thesis by simp
qed

text \<open>The same run: the one such neighbor of the chest \<open>(2, 0)\<close> is the big-room cell \<open>(1, 0)\<close>.\<close>

theorem chest_has_one_room_neighbor_witness:
  "generate id 6 3 2 2 0 (35 / 100) 1 (list_rng [0, 1]) = Some (Inr
     ([[False, False], [False, False], [True, False]], [[True], [False]],
      [[False, False], [True, False]], [[False], [False], [False]], [(2, 0)]))
   \<and> length (filter (room 3 2 [[False, False], [False, False], [True, False]] [[True], [False]])
        (get_nbr_points (2, 0) (PointChecker 3 2))) = 1"
  using chest_has_one_room_neighbor [OF id_enumerates run_3x2_corner, of "(2, 0)"] run_3x2_corner
  by simp

text \<open>
  C4 as stated fails. On the \<open>4 \<times> 2\<close> grid with epicenter \<open>(0, 0)\<close>, \<open>c = 3\<close> and every draw
  \<open>1\<close>, the big room is placed at \<open>(1, 0)\<close>, in the middle: the occupied cells are the
  columns \<open>0\<close> and \<open>3\<close>, and no path of open doors through occupied cells leads from
  \<open>(0, 0)\<close> to \<open>(3, 0)\<close>.
\<close>

theorem occupied_cells_disconnected:
  "generate id 8 4 2 0 0 (35 / 100) 3 (constant_rng 1) = Some (Inr
     ([[True, True], [False, False], [False, False], [True, True]],
      [[False], [True], [False]],
      [[True, True], [False, False], [True, True]],
      [[True], [False], [False], [True]], []))
   \<and> \<not> connected_by
        (occupied [[True, True], [False, False], [False, False], [True, True]])
        (door_open [[True, True], [False, False], [True, True]]
                 [[True], [False], [False], [True]]) 4 2"
proof -
  let ?occ = "[[True, True], [False, False], [False, False], [True, True]]"
  let ?hor = "[[True, True], [False, False], [True, True]]"
  let ?ver = "[[True], [False], [False], [True]]"
  let ?R = "{(a, b). PointChecker 4 2 a \<and> PointChecker 4 2 b \<and> occupied ?occ a
      \<and> occupied ?occ b \<and> door_open ?hor ?ver a b}"
  have o: "occupied ?occ (0, 0)" "occupied ?occ (3, 0)" "\<not> occupied ?occ (1, 0)"
    "\<not> occupied ?occ (1, 1)"
    by (simp_all add: occupied_def nd_get_def np_index_def)
  have step: "b \<in> {(0, 0), (0, 1)}" if "(a, b) \<in> ?R" "a \<in> {(0, 0), (0, 1)}" for a b
  proof -
    obtain bx "by" where b: "b = (bx, by)" by (cases b)
    from that b o(3,4) show ?thesis
      by (auto simp: door_open_def)
  qed
  have far: "((0, 0), (3, 0)) \<notin> ?R\<^sup>*"
  proof
    assume "((0, 0), (3, 0)) \<in> ?R\<^sup>*"
    from closed_under_rtrancl [OF this, of "{(0, 0), (0, 1)}"] step
    have "((3, 0) :: point) \<in> {(0, 0), (0, 1)}" by blast
    then show False by simp
  qed
  have "\<not> connected_by (occupied ?occ) (door_open ?hor ?ver) 4 2"
  proof
    assume "connected_by (occupied ?occ) (door_open ?hor ?ver) 4 2"
    then have "PointChecker 4 2 (0, 0) \<and> PointChecker 4 2 (3, 0) \<and> occupied ?occ (0, 0)
        \<and> occupied ?occ (3, 0) \<longrightarrow> ((0, 0), (3, 0)) \<in> ?R\<^sup>*"
      unfolding connected_by_def by blast
    with o(1,2) far show False by simp
  qed
  with run_4x2_middle show ?thesis by simp
qed


text \<open>
  C4, amended. The cells that are occupied or part of a big room form one connected
  component, where two such cells are adjacent when the door between them is open or
  when they belong to the same big room.
\<close>

theorem rooms_connected:
  assumes ord: "\<And>xs. set (ord xs) = set xs"
    and run: "generate ord fuel w h px py chance c r = Some (Inr (occ, big, hor, ver, chests))"
  shows "connected_by (room w h occ big)
           (\<lambda>a b. door_open hor ver a b \<or> same_big_cell w h big a b) w h"
proof -
  from layout_facts [OF ord run] obtain D D1 where
    pre: "grow_inv w h (px, py) D []" and J: "dead_end_inv w h D D1"
    and sh: "shape hor (w - 1) h" "shape ver w (h - 1)" and sb: "shape big (w - 1) (h - 1)"
    and rm: "\<And>q. PointChecker w h q \<Longrightarrow> room w h occ big q = (elt (cells D) q = BODY)"
    and dr: "doors_are w h \<lparr>cells = [], hor_doors = hor, ver_doors = ver\<rparr>
          (\<lambda>a b. open_between D1 a b \<and> \<not> (\<exists>c \<in> chosen w h big. inner c a b))"
    by blast
  let ?out = "\<lparr>cells = [], hor_doors = hor, ver_doors = ver\<rparr>"
  define E where "E a b \<longleftrightarrow> door_open hor ver a b \<or> same_big_cell w h big a b" for a b
  define R where "R = {(a, b). PointChecker w h a \<and> PointChecker w h b \<and> room w h occ big a
      \<and> room w h occ big b \<and> E a b}"
  from J have keep: "\<And>a b. PointChecker w h a \<Longrightarrow> PointChecker w h b \<Longrightarrow> open_between D a b
                 \<Longrightarrow> open_between D1 a b"
    and ok: "\<And>a b. PointChecker w h a \<Longrightarrow> PointChecker w h b \<Longrightarrow> open_between D1 a b
                 \<Longrightarrow> elt (cells D) a = BODY"
    unfolding dead_end_inv_def by blast+
  from pre have e: "PointChecker w h (px, py)"
    and conn: "\<And>p. PointChecker w h p \<Longrightarrow> elt (cells D) p \<noteq> EMPTY
           \<Longrightarrow> ((px, py), p) \<in> (links w h D)\<^sup>*"
    unfolding grow_inv_def by blast+
  have sub: "links w h D \<subseteq> R"
  proof
    fix z assume z: "z \<in> links w h D"
    obtain a b where ab: "z = (a, b)" by (cases z)
    from z ab have pa: "PointChecker w h a" and pb: "PointChecker w h b"
      and o: "open_between D a b"
      by (simp_all add: links_def)
    from keep [OF pa pb o] have o1: "open_between D1 a b" .
    then have o2: "open_between D1 b a" by (simp add: open_between_sym)
    from ok [OF pa pb o1] rm [OF pa] have ra: "room w h occ big a" by simp
    from ok [OF pb pa o2] rm [OF pb] have rb: "room w h occ big b" by simp
    have "E a b"
    proof (cases "\<exists>c \<in> chosen w h big. inner c a b")
      case True
      then obtain c where "c \<in> chosen w h big" "a \<in> block c" "b \<in> block c"
        using inner_block by blast
      then have "same_big_cell w h big a b"
        unfolding same_big_cell_chosen [OF sb] by blast
      then show ?thesis by (simp add: E_def)
    next
      case False
      with doors_areD [OF dr pa pb] o1 have "open_between ?out a b" by simp
      then have "door_open hor ver a b"
        unfolding door_open_out [OF sh pa pb, of "[]"] .
      then show ?thesis by (simp add: E_def)
    qed
    with pa pb ra rb show "z \<in> R" by (simp add: R_def ab)
  qed
  have symE: "E a b \<Longrightarrow> E b a" for a b
    unfolding E_def door_open_def same_big_cell_chosen [OF sb]
    by (cases a; cases b) auto
  have "sym R"
    unfolding R_def by (rule symI) (use symE in auto)
  then have symR: "sym (R\<^sup>*)" by (rule sym_rtrancl)
  have reach: "((px, py), p) \<in> R\<^sup>*"
    if p: "PointChecker w h p" "room w h occ big p" for p
  proof -
    from p rm have "elt (cells D) p \<noteq> EMPTY" by auto
    from conn [OF p(1) this] rtrancl_mono [OF sub] show ?thesis by blast
  qed
  have "(p, q) \<in> R\<^sup>*"
    if "PointChecker w h p" "PointChecker w h q" "room w h occ big p" "room w h occ big q"
    for p q
  proof -
    from reach [OF that(1,3)] symR have "(p, (px, py)) \<in> R\<^sup>*" by (rule symD [rotated])
    with reach [OF that(2,4)] show ?thesis by simp
  qed
  then show ?thesis
    unfolding connected_by_def R_def E_def by blast
qed



text \<open>The same run: the two occupied columns are joined through the big room.\<close>

theorem rooms_connected_witness:
  "generate id 8 4 2 0 0 (35 / 100) 3 (constant_rng 1) = Some (Inr
     ([[True, True], [False, False], [False, False], [True, True]],
      [[False], [True], [False]],
      [[True, True], [False, False], [True, True]],
      [[True], [False], [False], [True]], []))
   \<and> connected_by
        (room 4 2 [[True, True], [False, False], [False, False], [True, True]]
           [[False], [True], [False]])
        (\<lambda>a b. door_open [[True, True], [False, False], [True, True]]
                 [[True], [False], [False], [True]] a b
               \<or> same_big_cell 4 2 [[False], [True], [False]] a b) 4 2"
  using rooms_connected [OF id_enumerates run_4x2_middle] run_4x2_middle by simp

section \<open>Door indices\<close>



section \<open>Determinism\<close>

text \<open>
  C8. Two invocations of \<open>generate\<close> with the same parameters and the same state of the
  random generator return the same result: the same occupied mask, big-cell mask, door
  arrays and chest list, or the same error. Besides the parameters and the generator,
  the only thing an invocation depends on in the model is the order in which the vacancy
  set is iterated when all vacancies become heads; whatever enumerations \<open>ord1\<close> and \<open>ord2\<close>
  of the set the two invocations use, the results are equal.
\<close>

theorem generate_deterministic:
  assumes o1: "\<And>xs. set (ord1 xs) = set xs" and o2: "\<And>xs. set (ord2 xs) = set xs"
  shows "generate ord1 fuel w h px py chance c r = generate ord2 fuel w h px py chance c r"
proof (cases "0 < w \<and> 0 < h \<and> 0 \<le> px \<and> px < w \<and> 0 \<le> py \<and> py < h \<and> 0 < chance
      \<and> chance < 1 \<and> 0 \<le> c")
  case True
  then have v: "0 < w" "0 < h" "0 \<le> px" "px < w" "0 \<le> py" "py < h" "0 < chance" "chance < 1"
    "0 \<le> c"
    by simp_all
  from generate_start [OF v] obtain data where
    g: "\<And>ord fuel r. generate ord fuel w h px py chance c r
            = grow ord fuel w h data (PointChecker w h) chance c [(px, py)] r"
    and inv: "grow_inv w h (px, py) data [(px, py)]"
    by blast
  from grow_order_independent [OF o1 o2 inv refl] show ?thesis
    by (simp add: g)
next
  case False
  then have "w \<le> 0 \<or> h \<le> 0 \<or> \<not> (0 \<le> px \<and> px < w) \<or> \<not> (0 \<le> py \<and> py < h)
           \<or> \<not> (0 < chance \<and> chance < 1) \<or> c < 0"
    by auto
  then show ?thesis by (auto simp: generate_def)
qed

text \<open>The run on the \<open>3 \<times> 2\<close> grid, iterating the set in insertion order and in reverse.\<close>

theorem generate_deterministic_witness:
  "generate id 6 3 2 0 0 (35 / 100) 3 (constant_rng 0)
     = generate rev 6 3 2 0 0 (35 / 100) 3 (constant_rng 0)
   \<and> generate rev 6 3 2 0 0 (35 / 100) 3 (constant_rng 0) = Some (Inr
     ([[False, False], [False, False], [True, True]], [[True], [False]],
      [[False, False], [True, True]], [[False], [False], [True]], []))"
  using generate_deterministic [of id rev 6 3 2 0 0 "35 / 100" 3 "constant_rng 0"] run_3x2
  by simp

end
